theory Spec2Isabelle
  imports Main "HOL-Library.Word" "HOL-Library.Multiset"
begin

unbundle bit_operations_syntax

section \<open>Data model of the paint session\<close>

text \<open>
  The bounding box of a paint struct: six unsigned 16-bit coordinates
  (fields \<open>x, y, z, x_end, y_end, z_end\<close> of \<open>paint_struct_bound_box\<close>).
\<close>

record paint_struct_bound_box =
  bb_x :: "16 word"
  bb_y :: "16 word"
  bb_z :: "16 word"
  bb_x_end :: "16 word"
  bb_y_end :: "16 word"
  bb_z_end :: "16 word"

text \<open>
  A value of type \<open>paint_struct*\<close> is either \<open>nullptr\<close> (\<open>None\<close>) or the address of
  the session's sentinel \<open>PaintHead\<close> or of \<open>PaintStructs[i].basic\<close>.
\<close>

datatype ps_ref = HeadRef | SlotRef nat

type_synonym ps_ptr = "ps_ref option"

text \<open>
  \<open>paint_struct\<close>, field by field. The two union members at offset 4 share one
  field; pointers to structures the sorting code never follows (\<open>attached_ps\<close>,
  \<open>tileElement\<close>) are kept as opaque optional addresses.
\<close>

record paint_struct =
  image_id :: "32 word"
  tertiary_colour :: "32 word"
  bounds :: paint_struct_bound_box
  ps_x :: "16 word"
  ps_y :: "16 word"
  quadrant_index :: "16 word"
  flags :: "8 word"
  quadrant_flags :: "8 word"
  attached_ps :: "nat option"
  children :: ps_ptr
  next_quadrant_ps :: ps_ptr
  sprite_type :: "8 word"
  var_29 :: "8 word"
  pad_2A :: "16 word"
  map_x :: "16 word"
  map_y :: "16 word"
  tileElement :: "nat option"

text \<open>
  \<open>paint_session\<close>: the pool \<open>PaintStructs\<close>, the bucket heads \<open>Quadrants\<close>
  (\<open>MAX_PAINT_QUADRANTS\<close> entries), the sentinel \<open>PaintHead\<close> and the two bucket
  bounds.
\<close>

record paint_session =
  PaintStructs :: "nat \<Rightarrow> paint_struct"
  Quadrants :: "nat \<Rightarrow> ps_ptr"
  PaintHead :: paint_struct
  QuadrantBackIndex :: "32 word"
  QuadrantFrontIndex :: "32 word"

definition MAX_PAINT_QUADRANTS :: nat where
  "MAX_PAINT_QUADRANTS = 512"

definition UINT32_MAX :: "32 word" where
  "UINT32_MAX = - 1"

text \<open>The store the pointers range over: what each \<open>paint_struct*\<close> points to.\<close>

type_synonym heap = "ps_ref \<Rightarrow> paint_struct"

definition session_heap :: "paint_session \<Rightarrow> heap" where
  "session_heap s = (\<lambda>r. case r of HeadRef \<Rightarrow> PaintHead s | SlotRef i \<Rightarrow> PaintStructs s i)"

definition store_heap :: "heap \<Rightarrow> paint_session \<Rightarrow> paint_session" where
  "store_heap h s = s\<lparr>PaintStructs := (\<lambda>i. h (SlotRef i)), PaintHead := h HeadRef\<rparr>"

text \<open>What the code can do wrong on an ill-formed input.\<close>

datatype fault = NullDereference | QuadrantOutOfRange

section \<open>Flags and rotation\<close>

definition PAINT_QUADRANT_FLAG_IDENTICAL :: "8 word" where
  "PAINT_QUADRANT_FLAG_IDENTICAL = push_bit 0 1"

definition PAINT_QUADRANT_FLAG_BIGGER :: "8 word" where
  "PAINT_QUADRANT_FLAG_BIGGER = push_bit 7 1"

definition PAINT_QUADRANT_FLAG_NEXT :: "8 word" where
  "PAINT_QUADRANT_FLAG_NEXT = push_bit 1 1"

text \<open>\<open>get_current_rotation\<close> reads the global \<open>gCurrentRotation\<close>, here a parameter.\<close>

definition get_current_rotation :: "8 word \<Rightarrow> 8 word" where
  "get_current_rotation gCurrentRotation = gCurrentRotation AND 3"

section \<open>The bounding box test\<close>

text \<open>
  The four specialisations of \<open>check_bounding_box\<close> and, last, the primary
  template, which answers \<open>false\<close> for every other template argument.
\<close>

definition check_bounding_box ::
  "8 word \<Rightarrow> paint_struct_bound_box \<Rightarrow> paint_struct_bound_box \<Rightarrow> bool" where
  "check_bounding_box rot initialBBox currentBBox =
    (if rot = 0 then
       (if bb_z_end initialBBox \<ge> bb_z currentBBox \<and> bb_y_end initialBBox \<ge> bb_y currentBBox
            \<and> bb_x_end initialBBox \<ge> bb_x currentBBox
            \<and> \<not> (bb_z initialBBox < bb_z_end currentBBox \<and> bb_y initialBBox < bb_y_end currentBBox
                  \<and> bb_x initialBBox < bb_x_end currentBBox)
        then True else False)
     else if rot = 1 then
       (if bb_z_end initialBBox \<ge> bb_z currentBBox \<and> bb_y_end initialBBox \<ge> bb_y currentBBox
            \<and> bb_x_end initialBBox < bb_x currentBBox
            \<and> \<not> (bb_z initialBBox < bb_z_end currentBBox \<and> bb_y initialBBox < bb_y_end currentBBox
                  \<and> bb_x initialBBox \<ge> bb_x_end currentBBox)
        then True else False)
     else if rot = 2 then
       (if bb_z_end initialBBox \<ge> bb_z currentBBox \<and> bb_y_end initialBBox < bb_y currentBBox
            \<and> bb_x_end initialBBox < bb_x currentBBox
            \<and> \<not> (bb_z initialBBox < bb_z_end currentBBox \<and> bb_y initialBBox \<ge> bb_y_end currentBBox
                  \<and> bb_x initialBBox \<ge> bb_x_end currentBBox)
        then True else False)
     else if rot = 3 then
       (if bb_z_end initialBBox \<ge> bb_z currentBBox \<and> bb_y_end initialBBox < bb_y currentBBox
            \<and> bb_x_end initialBBox \<ge> bb_x currentBBox
            \<and> \<not> (bb_z initialBBox < bb_z_end currentBBox \<and> bb_y initialBBox \<ge> bb_y_end currentBBox
                  \<and> bb_x initialBBox < bb_x_end currentBBox)
        then True else False)
     else False)"

section \<open>The reorder pass\<close>

text \<open>
  \<open>paint_arrange_structs_helper_rotation\<close>, loop by loop. Each loop of the source
  is one recursive function; a loop that does not come back yields \<open>None\<close>.

  First loop: walk on while the bucket of the next node is below \<open>quadrantIndex\<close>.
  The result is \<open>ps\<close> and the \<open>ps_next\<close> the loop stopped at (\<open>None\<close>: the function
  returns \<open>ps\<close>).
\<close>

partial_function (option) helper_seek ::
  "heap \<Rightarrow> ps_ref \<Rightarrow> 16 word \<Rightarrow> (ps_ref \<times> ps_ptr) option" where
  "helper_seek h ps_next quadrantIndex =
    (let ps = ps_next in
     case next_quadrant_ps (h ps_next) of
       None \<Rightarrow> Some (ps, None)
     | Some n \<Rightarrow>
         if quadrantIndex > quadrant_index (h n) then helper_seek h n quadrantIndex
         else Some (ps, Some n))"

text \<open>
  Second loop: flag the nodes after \<open>ps\<close>. The sums \<open>quadrantIndex + 1\<close> are
  computed in \<open>int\<close> in the source, so they do not wrap.
\<close>

definition set_quadrant_flags :: "heap \<Rightarrow> ps_ref \<Rightarrow> 8 word \<Rightarrow> heap" where
  "set_quadrant_flags h p f = h(p := (h p)\<lparr>quadrant_flags := f\<rparr>)"

definition set_next_quadrant_ps :: "heap \<Rightarrow> ps_ref \<Rightarrow> ps_ptr \<Rightarrow> heap" where
  "set_next_quadrant_ps h p n = h(p := (h p)\<lparr>next_quadrant_ps := n\<rparr>)"

partial_function (option) helper_mark ::
  "heap \<Rightarrow> ps_ref \<Rightarrow> 16 word \<Rightarrow> 8 word \<Rightarrow> heap option" where
  "helper_mark h ps quadrantIndex flag =
    (case next_quadrant_ps (h ps) of
       None \<Rightarrow> Some h
     | Some p \<Rightarrow>
         (let h' =
            (if unat (quadrant_index (h p)) > unat quadrantIndex + 1
               then set_quadrant_flags h p PAINT_QUADRANT_FLAG_BIGGER
             else if unat (quadrant_index (h p)) = unat quadrantIndex + 1
               then set_quadrant_flags h p (PAINT_QUADRANT_FLAG_NEXT OR PAINT_QUADRANT_FLAG_IDENTICAL)
             else if quadrant_index (h p) = quadrantIndex
               then set_quadrant_flags h p (flag OR PAINT_QUADRANT_FLAG_IDENTICAL)
             else h)
          in if unat (quadrant_index (h' p)) \<le> unat quadrantIndex + 1
             then helper_mark h' p quadrantIndex flag
             else Some h'))"

text \<open>
  First inner loop of the main loop: look for the next node flagged IDENTICAL.
  \<open>None\<close> stands for \<open>return ps_cache\<close>, \<open>Some (ps, ps_next)\<close> for \<open>break\<close>.
\<close>

partial_function (option) helper_find ::
  "heap \<Rightarrow> ps_ref \<Rightarrow> (ps_ref \<times> ps_ref) option option" where
  "helper_find h ps =
    (case next_quadrant_ps (h ps) of
       None \<Rightarrow> Some None
     | Some ps_next \<Rightarrow>
         if quadrant_flags (h ps_next) AND PAINT_QUADRANT_FLAG_BIGGER \<noteq> 0 then Some None
         else if quadrant_flags (h ps_next) AND PAINT_QUADRANT_FLAG_IDENTICAL \<noteq> 0
           then Some (Some (ps, ps_next))
         else helper_find h ps_next)"

text \<open>
  Second inner loop: compare the pivot (whose \<open>bounds\<close> the reference
  \<open>initialBBox\<close> denotes) with the nodes after it and move each hit behind
  \<open>ps_temp\<close>. The argument \<open>ps_next\<close> is the value of that variable at the top
  of the loop body.
\<close>

partial_function (option) helper_scan ::
  "8 word \<Rightarrow> heap \<Rightarrow> ps_ref \<Rightarrow> ps_ref \<Rightarrow> ps_ref \<Rightarrow> heap option" where
  "helper_scan rot h ps_temp pivot ps_next =
    (let ps = ps_next in
     case next_quadrant_ps (h ps_next) of
       None \<Rightarrow> Some h
     | Some n \<Rightarrow>
         if quadrant_flags (h n) AND PAINT_QUADRANT_FLAG_BIGGER \<noteq> 0 then Some h
         else if \<not> (quadrant_flags (h n) AND PAINT_QUADRANT_FLAG_NEXT \<noteq> 0)
           then helper_scan rot h ps_temp pivot n
         else if check_bounding_box rot (bounds (h pivot)) (bounds (h n)) then
           (let h1 = set_next_quadrant_ps h ps (next_quadrant_ps (h n));
                ps_temp2 = next_quadrant_ps (h1 ps_temp);
                h2 = set_next_quadrant_ps h1 ps_temp (Some n);
                h3 = set_next_quadrant_ps h2 n ps_temp2
            in helper_scan rot h3 ps_temp pivot ps)
         else helper_scan rot h ps_temp pivot n)"

text \<open>The main loop \<open>while (true)\<close>; it ends where the first inner loop returns.\<close>

partial_function (option) helper_loop ::
  "8 word \<Rightarrow> heap \<Rightarrow> ps_ref \<Rightarrow> heap option" where
  "helper_loop rot h ps =
    (case helper_find h ps of
       None \<Rightarrow> None
     | Some None \<Rightarrow> Some h
     | Some (Some (ps', ps_next)) \<Rightarrow>
         (let h1 = set_quadrant_flags h ps_next
                     (quadrant_flags (h ps_next) AND NOT PAINT_QUADRANT_FLAG_IDENTICAL);
              ps_temp = ps'
          in case helper_scan rot h1 ps_temp ps_next ps_next of
               None \<Rightarrow> None
             | Some h2 \<Rightarrow> helper_loop rot h2 ps_temp))"

definition paint_arrange_structs_helper_rotation ::
  "8 word \<Rightarrow> heap \<Rightarrow> ps_ptr \<Rightarrow> 16 word \<Rightarrow> 8 word \<Rightarrow> (fault + heap \<times> ps_ptr) option" where
  "paint_arrange_structs_helper_rotation rot h ps_next quadrantIndex flag =
    (case ps_next of
       None \<Rightarrow> Some (Inl NullDereference)
     | Some p \<Rightarrow>
         (case helper_seek h p quadrantIndex of
            None \<Rightarrow> None
          | Some (ps, None) \<Rightarrow> Some (Inr (h, Some ps))
          | Some (ps, Some _) \<Rightarrow>
              (let ps_cache = ps in
               case helper_mark h ps quadrantIndex flag of
                 None \<Rightarrow> None
               | Some h1 \<Rightarrow>
                   (case helper_loop rot h1 ps of
                      None \<Rightarrow> None
                    | Some h2 \<Rightarrow> Some (Inr (h2, Some ps_cache))))))"

definition paint_arrange_structs_helper ::
  "heap \<Rightarrow> ps_ptr \<Rightarrow> 16 word \<Rightarrow> 8 word \<Rightarrow> 8 word \<Rightarrow> (fault + heap \<times> ps_ptr) option" where
  "paint_arrange_structs_helper h ps_next quadrantIndex flag rotation =
    (if rotation = 0 then paint_arrange_structs_helper_rotation 0 h ps_next quadrantIndex flag
     else if rotation = 1 then paint_arrange_structs_helper_rotation 1 h ps_next quadrantIndex flag
     else if rotation = 2 then paint_arrange_structs_helper_rotation 2 h ps_next quadrantIndex flag
     else if rotation = 3 then paint_arrange_structs_helper_rotation 3 h ps_next quadrantIndex flag
     else Some (Inr (h, None)))"

section \<open>The driver\<close>

text \<open>The walk to the last node of a bucket's list (the inner \<open>do ... while\<close>).\<close>

partial_function (option) merge_walk :: "heap \<Rightarrow> ps_ref \<Rightarrow> ps_ref option" where
  "merge_walk h ps_next =
    (let ps = ps_next in
     case next_quadrant_ps (h ps_next) of
       None \<Rightarrow> Some ps
     | Some n \<Rightarrow> merge_walk h n)"

text \<open>
  The bucket loop \<open>do ... while (++quadrantIndex <= session->QuadrantFrontIndex)\<close>:
  the result is the store and the last node \<open>ps\<close>. Reading \<open>Quadrants\<close> outside
  its \<open>MAX_PAINT_QUADRANTS\<close> entries is a fault.
\<close>

partial_function (option) quadrant_merge ::
  "paint_session \<Rightarrow> heap \<Rightarrow> ps_ref \<Rightarrow> 32 word \<Rightarrow> (fault + heap \<times> ps_ref) option" where
  "quadrant_merge session h ps quadrantIndex =
    (if \<not> unat quadrantIndex < MAX_PAINT_QUADRANTS then Some (Inl QuadrantOutOfRange)
     else
       (case (case Quadrants session (unat quadrantIndex) of
                None \<Rightarrow> Some (h, ps)
              | Some ps_next \<Rightarrow>
                  (let h' = set_next_quadrant_ps h ps (Some ps_next) in
                   case merge_walk h' ps_next of
                     None \<Rightarrow> None
                   | Some ps' \<Rightarrow> Some (h', ps'))) of
          None \<Rightarrow> None
        | Some (h', ps') \<Rightarrow>
            if quadrantIndex + 1 \<le> QuadrantFrontIndex session
            then quadrant_merge session h' ps' (quadrantIndex + 1)
            else Some (Inr (h', ps'))))"

text \<open>
  The last loop, \<open>while (++quadrantIndex < session->QuadrantFrontIndex)\<close>, one
  reorder pass per bucket.
\<close>

partial_function (option) arrange_passes ::
  "paint_session \<Rightarrow> 8 word \<Rightarrow> heap \<Rightarrow> ps_ptr \<Rightarrow> 32 word \<Rightarrow> (fault + heap) option" where
  "arrange_passes session rotation h ps_cache quadrantIndex =
    (if quadrantIndex + 1 < QuadrantFrontIndex session then
       (case paint_arrange_structs_helper h ps_cache (ucast ((quadrantIndex + 1) AND 0xFFFF)) 0 rotation of
          None \<Rightarrow> None
        | Some (Inl e) \<Rightarrow> Some (Inl e)
        | Some (Inr (h', ps_cache')) \<Rightarrow>
            arrange_passes session rotation h' ps_cache' (quadrantIndex + 1))
     else Some (Inr h))"

definition paint_session_arrange ::
  "8 word \<Rightarrow> paint_session \<Rightarrow> (fault + paint_session) option" where
  "paint_session_arrange gCurrentRotation session =
    (let psHead = HeadRef;
         h0 = set_next_quadrant_ps (session_heap session) psHead None;
         rotation = get_current_rotation gCurrentRotation
     in if QuadrantBackIndex session \<noteq> UINT32_MAX then
          (case quadrant_merge session h0 psHead (QuadrantBackIndex session) of
             None \<Rightarrow> None
           | Some (Inl e) \<Rightarrow> Some (Inl e)
           | Some (Inr (h1, _)) \<Rightarrow>
               (case paint_arrange_structs_helper h1 (Some psHead)
                       (ucast (QuadrantBackIndex session AND 0xFFFF))
                       PAINT_QUADRANT_FLAG_NEXT rotation of
                  None \<Rightarrow> None
                | Some (Inl e) \<Rightarrow> Some (Inl e)
                | Some (Inr (h2, ps_cache)) \<Rightarrow>
                    (case arrange_passes session rotation h2 ps_cache (QuadrantBackIndex session) of
                       None \<Rightarrow> None
                     | Some (Inl e) \<Rightarrow> Some (Inl e)
                     | Some (Inr h3) \<Rightarrow> Some (Inr (store_heap h3 session)))))
        else Some (Inr (store_heap h0 session)))"

declare helper_seek.simps [code] helper_mark.simps [code] helper_find.simps [code]
  helper_scan.simps [code] helper_loop.simps [code] merge_walk.simps [code]
  quadrant_merge.simps [code] arrange_passes.simps [code]

section \<open>The chain as a list\<close>

text \<open>
  \<open>chain_seg h p as q\<close>: following \<open>next_quadrant_ps\<close> from pointer \<open>p\<close> visits
  exactly the nodes \<open>as\<close>, in this order, and arrives at \<open>q\<close>. A chain is a segment
  that arrives at \<open>nullptr\<close>; it is finite and null-terminated, hence acyclic.
\<close>

primrec chain_seg :: "heap \<Rightarrow> ps_ptr \<Rightarrow> ps_ref list \<Rightarrow> ps_ptr \<Rightarrow> bool" where
  "chain_seg h p [] q = (p = q)"
| "chain_seg h p (a # as) q = (p = Some a \<and> chain_seg h (next_quadrant_ps (h a)) as q)"

abbreviation chain :: "heap \<Rightarrow> ps_ptr \<Rightarrow> ps_ref list \<Rightarrow> bool" where
  "chain h p as \<equiv> chain_seg h p as None"

text \<open>Everything in a paint struct but the chain link and the scratch flags.\<close>

definition payload :: "paint_struct \<Rightarrow> paint_struct" where
  "payload p = p\<lparr>next_quadrant_ps := None, quadrant_flags := 0\<rparr>"

definition same_payload :: "heap \<Rightarrow> heap \<Rightarrow> bool" where
  "same_payload h h' = (\<forall>r. payload (h' r) = payload (h r))"

definition is_bigger :: "heap \<Rightarrow> ps_ref \<Rightarrow> bool" where
  "is_bigger h r = (quadrant_flags (h r) AND PAINT_QUADRANT_FLAG_BIGGER \<noteq> 0)"

definition is_identical :: "heap \<Rightarrow> ps_ref \<Rightarrow> bool" where
  "is_identical h r = (quadrant_flags (h r) AND PAINT_QUADRANT_FLAG_IDENTICAL \<noteq> 0)"

text \<open>The nodes the flagging loop treats as near: bucket at most \<open>quadrantIndex + 1\<close>.\<close>

definition in_window :: "heap \<Rightarrow> 16 word \<Rightarrow> ps_ref \<Rightarrow> bool" where
  "in_window h q x = (unat (quadrant_index (h x)) \<le> unat q + 1)"

abbreviation unflagged :: "heap \<Rightarrow> ps_ref \<Rightarrow> bool" where
  "unflagged h \<equiv> (\<lambda>x. \<not> is_bigger h x)"

text \<open>
  The fields of a paint struct other than \<open>next_quadrant_ps\<close> and
  \<open>quadrant_flags\<close> agree.
\<close>

definition untouched_fields :: "paint_struct \<Rightarrow> paint_struct \<Rightarrow> bool" where
  "untouched_fields p p' =
     (image_id p' = image_id p \<and> tertiary_colour p' = tertiary_colour p
      \<and> bounds p' = bounds p \<and> ps_x p' = ps_x p \<and> ps_y p' = ps_y p
      \<and> quadrant_index p' = quadrant_index p \<and> flags p' = flags p
      \<and> attached_ps p' = attached_ps p \<and> children p' = children p
      \<and> sprite_type p' = sprite_type p \<and> var_29 p' = var_29 p \<and> pad_2A p' = pad_2A p
      \<and> map_x p' = map_x p \<and> map_y p' = map_y p \<and> tileElement p' = tileElement p
      \<and> paint_struct.more p' = paint_struct.more p)"

section \<open>Well-formed sessions\<close>

text \<open>
  What the traversal stage hands over. \<open>bs i\<close> is the list of bucket \<open>i\<close>: every
  bucket is a null-terminated chain of primitives (never the sentinel), and no
  primitive is in two buckets.
\<close>

definition buckets_wf :: "paint_session \<Rightarrow> (nat \<Rightarrow> ps_ref list) \<Rightarrow> bool" where
  "buckets_wf s bs =
     ((\<forall>i < MAX_PAINT_QUADRANTS.
          chain (session_heap s) (Quadrants s i) (bs i) \<and> HeadRef \<notin> set (bs i))
      \<and> (\<forall>i < MAX_PAINT_QUADRANTS. \<forall>j < MAX_PAINT_QUADRANTS.
            i \<noteq> j \<longrightarrow> set (bs i) \<inter> set (bs j) = {}))"

text \<open>
  The two indices bound the occupied buckets: with the empty sentinel no bucket
  is occupied; otherwise back is at most front, front is inside the array, and the
  buckets outside back..front are empty.
\<close>

definition bounds_wf :: "paint_session \<Rightarrow> (nat \<Rightarrow> ps_ref list) \<Rightarrow> bool" where
  "bounds_wf s bs =
     (if QuadrantBackIndex s = UINT32_MAX then (\<forall>i < MAX_PAINT_QUADRANTS. bs i = [])
      else QuadrantBackIndex s \<le> QuadrantFrontIndex s
         \<and> unat (QuadrantFrontIndex s) < MAX_PAINT_QUADRANTS
         \<and> (\<forall>i < MAX_PAINT_QUADRANTS.
               i < unat (QuadrantBackIndex s) \<or> unat (QuadrantFrontIndex s) < i \<longrightarrow> bs i = []))"

text \<open>Every primitive of bucket \<open>i\<close> carries \<open>quadrant_index\<close> \<open>i\<close>.\<close>

definition buckets_indexed :: "paint_session \<Rightarrow> (nat \<Rightarrow> ps_ref list) \<Rightarrow> bool" where
  "buckets_indexed s bs =
     (\<forall>i < MAX_PAINT_QUADRANTS. \<forall>x \<in> set (bs i). unat (quadrant_index (session_heap s x)) = i)"

definition session_wf :: "paint_session \<Rightarrow> (nat \<Rightarrow> ps_ref list) \<Rightarrow> bool" where
  "session_wf s bs = (buckets_wf s bs \<and> bounds_wf s bs)"

section \<open>The overlap test as the specification words it\<close>

text \<open>
  The conjunction of the specification: the z condition, the y and x conditions
  whose direction depends on the rotation, and the negated exclusion whose three
  terms follow the directions of the same rotation (\<open><\<close> on an axis whose
  condition is \<open>\<ge>\<close>, its complement \<open>\<ge>\<close> on an axis whose condition is \<open><\<close>).
\<close>

definition overlap_spec ::
  "8 word \<Rightarrow> paint_struct_bound_box \<Rightarrow> paint_struct_bound_box \<Rightarrow> bool" where
  "overlap_spec r initial current =
    (bb_z_end initial \<ge> bb_z current
     \<and> (if r = 0 \<or> r = 1 then bb_y_end initial \<ge> bb_y current
         else bb_y_end initial < bb_y current)
     \<and> (if r = 0 \<or> r = 3 then bb_x_end initial \<ge> bb_x current
         else bb_x_end initial < bb_x current)
     \<and> \<not> (bb_z initial < bb_z_end current
          \<and> (if r = 0 \<or> r = 1 then bb_y initial < bb_y_end current
              else bb_y initial \<ge> bb_y_end current)
          \<and> (if r = 0 \<or> r = 3 then bb_x initial < bb_x_end current
              else bb_x initial \<ge> bb_x_end current)))"

section \<open>Example sessions\<close>

definition mk_box ::
  "16 word \<Rightarrow> 16 word \<Rightarrow> 16 word \<Rightarrow> 16 word \<Rightarrow> 16 word \<Rightarrow> 16 word \<Rightarrow> paint_struct_bound_box" where
  "mk_box x y z xe ye ze =
     \<lparr>bb_x = x, bb_y = y, bb_z = z, bb_x_end = xe, bb_y_end = ye, bb_z_end = ze\<rparr>"

definition mk_ps :: "paint_struct_bound_box \<Rightarrow> 16 word \<Rightarrow> ps_ptr \<Rightarrow> paint_struct" where
  "mk_ps b q n = \<lparr>image_id = 0, tertiary_colour = 0, bounds = b, ps_x = 0, ps_y = 0,
     quadrant_index = q, flags = 0, quadrant_flags = 0, attached_ps = None, children = None,
     next_quadrant_ps = n, sprite_type = 0, var_29 = 0, pad_2A = 0, map_x = 0, map_y = 0,
     tileElement = None\<rparr>"

definition blank_ps :: paint_struct where
  "blank_ps = mk_ps (mk_box 0 0 0 0 0 0) 0 None"

text \<open>No bucket is occupied.\<close>

definition empty_session :: paint_session where
  "empty_session = \<lparr>
     PaintStructs = (\<lambda>_. blank_ps),
     Quadrants = (\<lambda>_. None),
     PaintHead = mk_ps (mk_box 0 0 0 0 0 0) 0 (Some (SlotRef 7)),
     QuadrantBackIndex = UINT32_MAX, QuadrantFrontIndex = 0\<rparr>"

text \<open>
  Bucket 5 holds A (slot 0), bucket 6 holds B (slot 1), which lies inside A, and
  after it an unrelated primitive (slot 2).
\<close>

definition nested_session :: paint_session where
  "nested_session = \<lparr>
     PaintStructs = (\<lambda>_. blank_ps)
        (0 := mk_ps (mk_box 0 0 0 4 4 4) 5 None,
         1 := mk_ps (mk_box 1 1 1 3 3 3) 6 (Some (SlotRef 2)),
         2 := mk_ps (mk_box 100 100 100 104 104 104) 6 None),
     Quadrants = (\<lambda>_. None)(5 := Some (SlotRef 0), 6 := Some (SlotRef 1)),
     PaintHead = blank_ps,
     QuadrantBackIndex = 5, QuadrantFrontIndex = 6\<rparr>"

text \<open>
  Buckets 5, 6 and 7 hold one primitive each: slot 0 floats above slot 1, and
  slot 2 is a flat box at the bottom of slot 1.
\<close>

definition stacked_session :: paint_session where
  "stacked_session = \<lparr>
     PaintStructs = (\<lambda>_. blank_ps)
        (0 := mk_ps (mk_box 0 0 10 4 4 14) 5 None,
         1 := mk_ps (mk_box 0 0 0 4 4 4) 6 None,
         2 := mk_ps (mk_box 0 0 0 4 4 0) 7 None),
     Quadrants = (\<lambda>_. None)(5 := Some (SlotRef 0), 6 := Some (SlotRef 1), 7 := Some (SlotRef 2)),
     PaintHead = blank_ps,
     QuadrantBackIndex = 5, QuadrantFrontIndex = 7\<rparr>"

definition empty_buckets :: "nat \<Rightarrow> ps_ref list" where
  "empty_buckets = (\<lambda>_. [])"

definition nested_buckets :: "nat \<Rightarrow> ps_ref list" where
  "nested_buckets = (\<lambda>_. [])(5 := [SlotRef 0], 6 := [SlotRef 1, SlotRef 2])"

definition stacked_buckets :: "nat \<Rightarrow> ps_ref list" where
  "stacked_buckets = (\<lambda>_. [])(5 := [SlotRef 0], 6 := [SlotRef 1], 7 := [SlotRef 2])"

text \<open>The store of \<open>stacked_session\<close> once its three buckets are linked.\<close>

definition stacked_heap :: heap where
  "stacked_heap = (\<lambda>_. blank_ps)
     (HeadRef := mk_ps (mk_box 0 0 0 0 0 0) 0 (Some (SlotRef 0)),
      SlotRef 0 := mk_ps (mk_box 0 0 10 4 4 14) 5 (Some (SlotRef 1)),
      SlotRef 1 := mk_ps (mk_box 0 0 0 4 4 4) 6 (Some (SlotRef 2)),
      SlotRef 2 := mk_ps (mk_box 0 0 0 4 4 0) 7 None)"

section \<open>Chains: basic facts\<close>

text \<open>
  Arithmetic of the three flag bits, then the facts about chains used throughout:
  a chain depends only on the links of its own nodes, it is determined by its
  start, and it never visits a node twice.
\<close>

lemma clear_identical_off:
  "(f AND NOT PAINT_QUADRANT_FLAG_IDENTICAL) AND PAINT_QUADRANT_FLAG_IDENTICAL = 0"
  by (simp add: and.assoc)

lemma clear_identical_keeps_bigger:
  "(f AND NOT PAINT_QUADRANT_FLAG_IDENTICAL) AND PAINT_QUADRANT_FLAG_BIGGER
     = f AND PAINT_QUADRANT_FLAG_BIGGER"
proof -
  have "NOT PAINT_QUADRANT_FLAG_IDENTICAL AND PAINT_QUADRANT_FLAG_BIGGER = PAINT_QUADRANT_FLAG_BIGGER"
    by (simp add: PAINT_QUADRANT_FLAG_IDENTICAL_def PAINT_QUADRANT_FLAG_BIGGER_def)
  then show ?thesis by (simp add: and.assoc)
qed

lemma bigger_nonzero: "PAINT_QUADRANT_FLAG_BIGGER \<noteq> 0"
  by (simp add: PAINT_QUADRANT_FLAG_BIGGER_def)

lemma chain_seg_append:
  "chain_seg h p (as @ bs) q = (\<exists>r. chain_seg h p as r \<and> chain_seg h r bs q)"
  by (induction as arbitrary: p) auto

lemma chain_seg_cong:
  "(\<forall>a \<in> set as. next_quadrant_ps (h' a) = next_quadrant_ps (h a)) \<Longrightarrow>
     chain_seg h' p as q = chain_seg h p as q"
  by (induction as arbitrary: p) auto

lemma chain_unique: "chain h p as \<Longrightarrow> chain h p bs \<Longrightarrow> as = bs"
proof (induction as arbitrary: p bs)
  case Nil
  then show ?case by (cases bs) auto
next
  case (Cons a as)
  then show ?case by (cases bs) auto
qed

lemma chain_head_fresh:
  assumes "chain h (next_quadrant_ps (h a)) as"
  shows "a \<notin> set as"
proof
  assume "a \<in> set as"
  then obtain u v where split: "as = u @ a # v"
    by (auto simp add: in_set_conv_decomp)
  with assms have "chain h (next_quadrant_ps (h a)) v"
    by (auto simp add: chain_seg_append)
  with assms have "as = v" by (rule chain_unique)
  with split show False by simp
qed

lemma chain_distinct: "chain h p as \<Longrightarrow> distinct as"
  by (induction as arbitrary: p) (auto dest: chain_head_fresh)

lemma chain_reattach:
  assumes "chain h p (P @ a # Y)" and "chain h' (Some a) (a # Y')"
    and "\<forall>x \<in> set P. next_quadrant_ps (h' x) = next_quadrant_ps (h x)"
  shows "chain h' p (P @ a # Y')"
proof -
  from assms(1) have "chain_seg h p P (Some a)"
    by (auto simp add: chain_seg_append)
  with assms(3) have "chain_seg h' p P (Some a)"
    using chain_seg_cong [of P h' h p "Some a"] by simp
  with assms(2) show ?thesis
    by (auto simp add: chain_seg_append)
qed

lemma chain_suffix: "chain h p (P @ a # Y) \<Longrightarrow> chain h (Some a) (a # Y)"
  by (auto simp add: chain_seg_append)


subsection \<open>The first two loops\<close>

text \<open>
  On a chain the first loop returns: it skips the nodes whose bucket is below
  \<open>q\<close> and stops in front of the first other node.
\<close>

lemma helper_seek_chain:
  assumes "chain h (Some c) (c # xs)"
  shows "helper_seek h c q =
           Some (last (c # takeWhile (\<lambda>x. quadrant_index (h x) < q) xs),
                 case dropWhile (\<lambda>x. quadrant_index (h x) < q) xs of
                   [] \<Rightarrow> None | n # _ \<Rightarrow> Some n)"
  using assms
proof (induction xs arbitrary: c)
  case Nil
  then show ?case by (subst helper_seek.simps) simp
next
  case (Cons n xs)
  from Cons.prems have nxt: "next_quadrant_ps (h c) = Some n" and rest: "chain h (Some n) (n # xs)"
    by simp_all
  show ?case
  proof (cases "quadrant_index (h n) < q")
    case True
    then have "helper_seek h c q = helper_seek h n q"
      by (subst helper_seek.simps) (simp add: nxt)
    with Cons.IH [OF rest] True show ?thesis by simp
  next
    case False
    then show ?thesis by (subst helper_seek.simps) (simp add: nxt)
  qed
qed


lemma same_payload_refl: "same_payload h h"
  by (simp add: same_payload_def)

lemma same_payload_trans: "same_payload h h1 \<Longrightarrow> same_payload h1 h2 \<Longrightarrow> same_payload h h2"
  by (simp add: same_payload_def)

lemma same_payload_flags: "same_payload h (set_quadrant_flags h p f)"
  by (simp add: same_payload_def set_quadrant_flags_def payload_def)

lemma same_payload_next: "same_payload h (set_next_quadrant_ps h p n)"
  by (simp add: same_payload_def set_next_quadrant_ps_def payload_def)

lemma same_payload_index: "same_payload h h' \<Longrightarrow> quadrant_index (h' x) = quadrant_index (h x)"
proof -
  assume "same_payload h h'"
  then have "quadrant_index (payload (h' x)) = quadrant_index (payload (h x))"
    by (simp add: same_payload_def)
  then show ?thesis by (simp add: payload_def)
qed

lemma same_payload_bounds: "same_payload h h' \<Longrightarrow> bounds (h' x) = bounds (h x)"
proof -
  assume "same_payload h h'"
  then have "bounds (payload (h' x)) = bounds (payload (h x))"
    by (simp add: same_payload_def)
  then show ?thesis by (simp add: payload_def)
qed

text \<open>
  The flagging loop returns, writes \<open>quadrant_flags\<close> only, touches no node beyond
  the first one outside the window, and flags that one BIGGER.
\<close>

lemma helper_mark_chain:
  assumes "chain h (Some a) (a # ys)"
  shows "\<exists>h1. helper_mark h a q flag = Some h1
     \<and> (\<forall>x. next_quadrant_ps (h1 x) = next_quadrant_ps (h x))
     \<and> same_payload h h1
     \<and> (\<forall>x. x \<notin> set (takeWhile (in_window h q) ys @ take 1 (dropWhile (in_window h q) ys))
            \<longrightarrow> h1 x = h x)
     \<and> (\<forall>f fs. dropWhile (in_window h q) ys = f # fs \<longrightarrow> is_bigger h1 f)"
  using assms
proof (induction ys arbitrary: h a)
  case Nil
  then show ?case by (subst helper_mark.simps) (simp add: same_payload_refl)
next
  case (Cons p ys)
  from Cons.prems have nxt: "next_quadrant_ps (h a) = Some p" and rest: "chain h (Some p) (p # ys)"
    by simp_all
  define h' where "h' =
     (if unat (quadrant_index (h p)) > unat q + 1
        then set_quadrant_flags h p PAINT_QUADRANT_FLAG_BIGGER
      else if unat (quadrant_index (h p)) = unat q + 1
        then set_quadrant_flags h p (PAINT_QUADRANT_FLAG_NEXT OR PAINT_QUADRANT_FLAG_IDENTICAL)
      else if quadrant_index (h p) = q
        then set_quadrant_flags h p (flag OR PAINT_QUADRANT_FLAG_IDENTICAL)
      else h)"
  have links: "\<forall>x. next_quadrant_ps (h' x) = next_quadrant_ps (h x)"
    by (simp add: h'_def set_quadrant_flags_def)
  have pay: "same_payload h h'"
    by (simp add: h'_def same_payload_flags same_payload_refl)
  have other: "\<forall>x. x \<noteq> p \<longrightarrow> h' x = h x"
    by (simp add: h'_def set_quadrant_flags_def)
  have idx: "\<forall>x. quadrant_index (h' x) = quadrant_index (h x)"
    using pay by (simp add: same_payload_index)
  then have win: "in_window h' q = in_window h q"
    by (simp add: in_window_def fun_eq_iff)
  have unfold: "helper_mark h a q flag =
      (if unat (quadrant_index (h' p)) \<le> unat q + 1 then helper_mark h' p q flag else Some h')"
    by (subst helper_mark.simps) (simp add: nxt h'_def Let_def)
  show ?case
  proof (cases "in_window h q p")
    case True
    from rest links have "chain h' (Some p) (p # ys)"
      using chain_seg_cong [of "p # ys" h' h "Some p" None] by simp
    from Cons.IH [OF this] obtain h1 where
      run: "helper_mark h' p q flag = Some h1"
      and l1: "\<forall>x. next_quadrant_ps (h1 x) = next_quadrant_ps (h' x)"
      and p1: "same_payload h' h1"
      and o1: "\<forall>x. x \<notin> set (takeWhile (in_window h' q) ys @ take 1 (dropWhile (in_window h' q) ys))
                 \<longrightarrow> h1 x = h' x"
      and b1: "\<forall>f fs. dropWhile (in_window h' q) ys = f # fs \<longrightarrow> is_bigger h1 f"
      by blast
    from True idx have "helper_mark h a q flag = Some h1"
      by (simp add: unfold run in_window_def)
    moreover from l1 links have "\<forall>x. next_quadrant_ps (h1 x) = next_quadrant_ps (h x)" by simp
    moreover from pay p1 have "same_payload h h1" by (rule same_payload_trans)
    moreover from o1 other True
    have "\<forall>x. x \<notin> set (takeWhile (in_window h q) (p # ys) @ take 1 (dropWhile (in_window h q) (p # ys)))
                 \<longrightarrow> h1 x = h x"
      by (simp add: win)
    moreover from b1 True have "\<forall>f fs. dropWhile (in_window h q) (p # ys) = f # fs \<longrightarrow> is_bigger h1 f"
      by (simp add: win)
    ultimately show ?thesis by blast
  next
    case False
    then have far: "unat (quadrant_index (h p)) > unat q + 1"
      by (simp add: in_window_def)
    then have h'_eq: "h' = set_quadrant_flags h p PAINT_QUADRANT_FLAG_BIGGER"
      by (simp add: h'_def)
    from far idx have "helper_mark h a q flag = Some h'"
      by (simp add: unfold)
    moreover have "is_bigger h' p"
      by (simp add: h'_eq is_bigger_def set_quadrant_flags_def bigger_nonzero)
    ultimately show ?thesis
      using links pay other False by auto
  qed
qed

subsection \<open>The inner loops\<close>

text \<open>
  The search for the next pivot either reports that no node before the first
  BIGGER one is flagged IDENTICAL, or returns the first such node with its
  predecessor.
\<close>

lemma helper_find_chain:
  assumes "chain h (Some ps) (ps # xs)"
  shows "(helper_find h ps = Some None
           \<and> (\<forall>x \<in> set (takeWhile (\<lambda>x. \<not> is_bigger h x) xs). \<not> is_identical h x))
       \<or> (\<exists>B n C. helper_find h ps = Some (Some (last (ps # B), n)) \<and> xs = B @ n # C
             \<and> is_identical h n \<and> (\<forall>x \<in> set (B @ [n]). \<not> is_bigger h x)
             \<and> (\<forall>x \<in> set B. \<not> is_identical h x))"
  using assms
proof (induction xs arbitrary: ps)
  case Nil
  then show ?case by (subst helper_find.simps) simp
next
  case (Cons n xs)
  from Cons.prems have nxt: "next_quadrant_ps (h ps) = Some n" and rest: "chain h (Some n) (n # xs)"
    by simp_all
  consider (big) "is_bigger h n" | (ident) "\<not> is_bigger h n" "is_identical h n"
    | (skip) "\<not> is_bigger h n" "\<not> is_identical h n" by blast
  then show ?case
  proof cases
    case big
    then have "helper_find h ps = Some None"
      by (subst helper_find.simps) (simp add: nxt is_bigger_def)
    with big show ?thesis by simp
  next
    case ident
    then have "helper_find h ps = Some (Some (last (ps # []), n))"
      by (subst helper_find.simps) (simp add: nxt is_bigger_def is_identical_def)
    with ident show ?thesis by (intro disjI2 exI [of _ "[]"] exI [of _ n] exI [of _ xs]) simp
  next
    case skip
    then have step: "helper_find h ps = helper_find h n"
      by (subst helper_find.simps) (simp add: nxt is_bigger_def is_identical_def)
    from Cons.IH [OF rest] show ?thesis
    proof
      assume "helper_find h n = Some None
           \<and> (\<forall>x \<in> set (takeWhile (\<lambda>x. \<not> is_bigger h x) xs). \<not> is_identical h x)"
      with skip step show ?thesis by simp
    next
      assume "\<exists>B m C. helper_find h n = Some (Some (last (n # B), m)) \<and> xs = B @ m # C
             \<and> is_identical h m \<and> (\<forall>x \<in> set (B @ [m]). \<not> is_bigger h x)
             \<and> (\<forall>x \<in> set B. \<not> is_identical h x)"
      then obtain B m C where r: "helper_find h n = Some (Some (last (n # B), m))" "xs = B @ m # C"
             "is_identical h m" "\<forall>x \<in> set (B @ [m]). \<not> is_bigger h x"
             "\<forall>x \<in> set B. \<not> is_identical h x" by blast
      with skip step show ?thesis
        by (intro disjI2 exI [of _ "n # B"] exI [of _ m] exI [of _ C]) simp
    qed
  qed
qed


text \<open>
  The four assignments of the splice move node \<open>n\<close> from behind \<open>ps\<close> to just
  behind \<open>t\<close>.
\<close>

lemma splice_chain:
  assumes ch: "chain h (Some t) (t # A @ ps # n # R)"
  defines "h1 \<equiv> set_next_quadrant_ps h ps (next_quadrant_ps (h n))"
  defines "h2 \<equiv> set_next_quadrant_ps h1 t (Some n)"
  defines "h3 \<equiv> set_next_quadrant_ps h2 n (next_quadrant_ps (h1 t))"
  shows "chain h3 (Some t) (t # n # A @ ps # R)"
proof -
  from ch have d: "distinct (t # A @ ps # n # R)" by (rule chain_distinct)
  from ch have "chain_seg h (next_quadrant_ps (h t)) (A @ ps # n # R) None" by simp
  then obtain r where a: "chain_seg h (next_quadrant_ps (h t)) A r" and b: "chain h r (ps # n # R)"
    by (auto simp add: chain_seg_append)
  from b have r: "r = Some ps" and pn: "next_quadrant_ps (h ps) = Some n"
    and tail: "chain h (next_quadrant_ps (h n)) R" by simp_all
  from d have ne: "t \<noteq> ps" "t \<noteq> n" "ps \<noteq> n" by auto
  have nt: "next_quadrant_ps (h3 t) = Some n"
    using ne by (simp add: h3_def h2_def h1_def set_next_quadrant_ps_def)
  have nn: "next_quadrant_ps (h3 n) = next_quadrant_ps (h t)"
    using ne by (simp add: h3_def h2_def h1_def set_next_quadrant_ps_def)
  have np: "next_quadrant_ps (h3 ps) = next_quadrant_ps (h n)"
    using ne by (simp add: h3_def h2_def h1_def set_next_quadrant_ps_def)
  have same: "x \<noteq> t \<Longrightarrow> x \<noteq> ps \<Longrightarrow> x \<noteq> n \<Longrightarrow> next_quadrant_ps (h3 x) = next_quadrant_ps (h x)" for x
    by (simp add: h3_def h2_def h1_def set_next_quadrant_ps_def)
  from d have "\<forall>x \<in> set A. next_quadrant_ps (h3 x) = next_quadrant_ps (h x)"
    by (auto intro: same)
  with a r have a': "chain_seg h3 (next_quadrant_ps (h t)) A (Some ps)"
    using chain_seg_cong [of A h3 h "next_quadrant_ps (h t)" "Some ps"] by simp
  from d have "\<forall>x \<in> set R. next_quadrant_ps (h3 x) = next_quadrant_ps (h x)"
    by (auto intro: same)
  with tail have "chain h3 (next_quadrant_ps (h n)) R"
    using chain_seg_cong [of R h3 h "next_quadrant_ps (h n)" None] by simp
  with np have "chain h3 (Some ps) (ps # R)" by simp
  with a' have "chain h3 (next_quadrant_ps (h t)) (A @ ps # R)"
    by (auto simp add: chain_seg_append)
  with nt nn show ?thesis by simp
qed

text \<open>
  The comparison loop returns. It permutes the nodes between \<open>t\<close> and the first
  BIGGER node, writes links only, and only those of \<open>t\<close> and of these nodes.
\<close>

lemma helper_scan_chain:
  assumes "chain h (Some t) (t # A @ ps # R)"
  shows "\<exists>h' W. helper_scan rot h t pv ps = Some h'
     \<and> chain h' (Some t) (t # W @ dropWhile (unflagged h) R)
     \<and> mset W = mset (A @ ps # takeWhile (unflagged h) R)
     \<and> (\<forall>x. quadrant_flags (h' x) = quadrant_flags (h x))
     \<and> same_payload h h'
     \<and> (\<forall>x. x \<notin> set (t # A @ ps # takeWhile (unflagged h) R) \<longrightarrow> h' x = h x)"
  using assms
proof (induction R arbitrary: h A ps)
  case Nil
  then have "next_quadrant_ps (h ps) = None"
    by (auto simp add: chain_seg_append)
  then have "helper_scan rot h t pv ps = Some h"
    by (subst helper_scan.simps) simp
  with Nil show ?case
    by (intro exI [of _ h] exI [of _ "A @ [ps]"]) (simp add: same_payload_refl)
next
  case (Cons n R)
  from Cons.prems have nxt: "next_quadrant_ps (h ps) = Some n"
    by (auto simp add: chain_seg_append)
  consider (stop) "is_bigger h n"
    | (move) "\<not> is_bigger h n" "quadrant_flags (h n) AND PAINT_QUADRANT_FLAG_NEXT \<noteq> 0"
         "check_bounding_box rot (bounds (h pv)) (bounds (h n))"
    | (pass) "\<not> is_bigger h n" "\<not> (quadrant_flags (h n) AND PAINT_QUADRANT_FLAG_NEXT \<noteq> 0
         \<and> check_bounding_box rot (bounds (h pv)) (bounds (h n)))"
    by blast
  then show ?case
  proof cases
    case stop
    then have "helper_scan rot h t pv ps = Some h"
      by (subst helper_scan.simps) (simp add: nxt is_bigger_def)
    with stop Cons.prems show ?thesis
      by (intro exI [of _ h] exI [of _ "A @ [ps]"]) (simp add: same_payload_refl)
  next
    case pass
    then have step: "helper_scan rot h t pv ps = helper_scan rot h t pv n"
      by (subst helper_scan.simps) (auto simp add: nxt is_bigger_def)
    from Cons.prems have "chain h (Some t) (t # (A @ [ps]) @ n # R)" by simp
    from Cons.IH [OF this] obtain h' W where
      "helper_scan rot h t pv n = Some h'"
      "chain h' (Some t) (t # W @ dropWhile (unflagged h) R)"
      "mset W = mset ((A @ [ps]) @ n # takeWhile (unflagged h) R)"
      "\<forall>x. quadrant_flags (h' x) = quadrant_flags (h x)"
      "same_payload h h'"
      "\<forall>x. x \<notin> set (t # (A @ [ps]) @ n # takeWhile (unflagged h) R) \<longrightarrow> h' x = h x"
      by blast
    with pass step show ?thesis
      by (intro exI [of _ h'] exI [of _ W]) simp
  next
    case move
    define h1 where "h1 = set_next_quadrant_ps h ps (next_quadrant_ps (h n))"
    define h2 where "h2 = set_next_quadrant_ps h1 t (Some n)"
    define h3 where "h3 = set_next_quadrant_ps h2 n (next_quadrant_ps (h1 t))"
    from move have step: "helper_scan rot h t pv ps = helper_scan rot h3 t pv ps"
      by (subst helper_scan.simps) (simp add: nxt is_bigger_def Let_def h1_def h2_def h3_def)
    have fl: "\<forall>x. quadrant_flags (h3 x) = quadrant_flags (h x)"
      by (simp add: h3_def h2_def h1_def set_next_quadrant_ps_def)
    then have big: "is_bigger h3 = is_bigger h"
      by (simp add: is_bigger_def fun_eq_iff)
    have pay: "same_payload h h3"
      unfolding h3_def h2_def h1_def
      by (blast intro: same_payload_trans same_payload_next)
    have other: "\<forall>x. x \<noteq> t \<and> x \<noteq> ps \<and> x \<noteq> n \<longrightarrow> h3 x = h x"
      by (simp add: h3_def h2_def h1_def set_next_quadrant_ps_def)
    from Cons.prems have "chain h3 (Some t) (t # n # A @ ps # R)"
      unfolding h3_def h2_def h1_def by (rule splice_chain)
    then have "chain h3 (Some t) (t # (n # A) @ ps # R)" by simp
    from Cons.IH [OF this] obtain h' W where r:
      "helper_scan rot h3 t pv ps = Some h'"
      "chain h' (Some t) (t # W @ dropWhile (unflagged h3) R)"
      "mset W = mset ((n # A) @ ps # takeWhile (unflagged h3) R)"
      "\<forall>x. quadrant_flags (h' x) = quadrant_flags (h3 x)"
      "same_payload h3 h'"
      "\<forall>x. x \<notin> set (t # (n # A) @ ps # takeWhile (unflagged h3) R) \<longrightarrow> h' x = h3 x"
      by blast
    from r(1) step have "helper_scan rot h t pv ps = Some h'" by simp
    moreover from r(2) move have "chain h' (Some t) (t # W @ dropWhile (unflagged h) (n # R))"
      by (simp add: big)
    moreover from r(3) move have "mset W = mset (A @ ps # takeWhile (unflagged h) (n # R))"
      by (simp add: big)
    moreover from r(4) fl have "\<forall>x. quadrant_flags (h' x) = quadrant_flags (h x)" by simp
    moreover from pay r(5) have "same_payload h h'" by (rule same_payload_trans)
    moreover from r(6) other move
    have "\<forall>x. x \<notin> set (t # A @ ps # takeWhile (unflagged h) (n # R)) \<longrightarrow> h' x = h x"
      by (simp add: big)
    ultimately show ?thesis by blast
  qed
qed

section \<open>The main loop of the reorder pass\<close>

lemma takeWhile_over_dropWhile:
  "(\<forall>x \<in> set W. P x) \<Longrightarrow> takeWhile P (W @ dropWhile P C) = W"
proof -
  assume "\<forall>x \<in> set W. P x"
  moreover have "takeWhile P (dropWhile P C) = []"
    by (induction C) auto
  ultimately show ?thesis by simp
qed

lemma dropWhile_over_dropWhile:
  "(\<forall>x \<in> set W. P x) \<Longrightarrow> dropWhile P (W @ dropWhile P C) = dropWhile P C"
  by simp

lemma filter_length_mset:
  assumes "mset W = mset V"
  shows "length (filter P W) = length (filter P V)"
proof -
  from assms have "mset (filter P W) = mset (filter P V)"
    by (simp only: mset_filter)
  then show ?thesis by (rule mset_eq_length)
qed

text \<open>
  The main loop returns: each round clears one IDENTICAL flag among the nodes in
  front of the first BIGGER one, and no round sets one. The nodes stay the same
  up to their order.
\<close>

lemma helper_loop_chain:
  assumes "chain h (Some ps) (ps # X)"
  shows "\<exists>h' W. helper_loop rot h ps = Some h'
     \<and> chain h' (Some ps) (ps # W @ dropWhile (unflagged h) X)
     \<and> mset W = mset (takeWhile (unflagged h) X)
     \<and> same_payload h h'
     \<and> (\<forall>x. is_bigger h' x = is_bigger h x)
     \<and> (\<forall>x. x \<notin> set (ps # takeWhile (unflagged h) X) \<longrightarrow> h' x = h x)"
  using assms
proof (induction "length (filter (is_identical h) (takeWhile (unflagged h) X))"
         arbitrary: h ps X rule: less_induct)
  case less
  note ch = less.prems
  from helper_find_chain [OF ch] show ?case
  proof
    assume "helper_find h ps = Some None
           \<and> (\<forall>x \<in> set (takeWhile (\<lambda>x. \<not> is_bigger h x) X). \<not> is_identical h x)"
    then have "helper_loop rot h ps = Some h"
      by (subst helper_loop.simps) simp
    with ch show ?thesis
      by (intro exI [of _ h] exI [of _ "takeWhile (unflagged h) X"]) (simp add: same_payload_refl)
  next
    assume "\<exists>B n C. helper_find h ps = Some (Some (last (ps # B), n)) \<and> X = B @ n # C
             \<and> is_identical h n \<and> (\<forall>x \<in> set (B @ [n]). \<not> is_bigger h x)
             \<and> (\<forall>x \<in> set B. \<not> is_identical h x)"
    then obtain B n C where
      fnd: "helper_find h ps = Some (Some (last (ps # B), n))" and X: "X = B @ n # C"
      and idn: "is_identical h n" and nbB: "\<forall>x \<in> set (B @ [n]). \<not> is_bigger h x"
      and nidB: "\<forall>x \<in> set B. \<not> is_identical h x" by blast
    define p where "p = last (ps # B)"
    define P where "P = butlast (ps # B)"
    have PB: "ps # B = P @ [p]" by (simp add: p_def P_def)
    have "ps # X = (ps # B) @ n # C" by (simp add: X)
    also have "\<dots> = (P @ [p]) @ n # C" by (simp only: PB)
    finally have eqX: "ps # X = P @ p # n # C" by simp
    from chain_distinct [OF ch] have d: "distinct (P @ p # n # C)"
      by (simp only: eqX)
    define h1 where "h1 = set_quadrant_flags h n
                     (quadrant_flags (h n) AND NOT PAINT_QUADRANT_FLAG_IDENTICAL)"
    have l1: "\<forall>x. next_quadrant_ps (h1 x) = next_quadrant_ps (h x)"
      by (simp add: h1_def set_quadrant_flags_def)
    have o1: "\<forall>x. x \<noteq> n \<longrightarrow> h1 x = h x"
      by (simp add: h1_def set_quadrant_flags_def)
    have pay1: "same_payload h h1"
      by (simp add: h1_def same_payload_flags)
    have big1: "is_bigger h1 = is_bigger h"
      by (auto simp add: fun_eq_iff is_bigger_def h1_def set_quadrant_flags_def
            clear_identical_keeps_bigger)
    have nid1: "\<not> is_identical h1 n"
      by (simp add: is_identical_def h1_def set_quadrant_flags_def clear_identical_off)
    have id1: "\<forall>x. x \<noteq> n \<longrightarrow> is_identical h1 x = is_identical h x"
      by (simp add: is_identical_def o1)
    from ch have chh: "chain h (Some ps) (P @ p # n # C)"
      by (simp only: eqX)
    with l1 have ch1: "chain h1 (Some ps) (P @ p # n # C)"
      using chain_seg_cong [of "P @ p # n # C" h1 h "Some ps" None] by simp
    then have "chain h1 (Some p) (p # [] @ n # C)"
      using chain_suffix [of h1 "Some ps" P p "n # C"] by simp
    from helper_scan_chain [OF this, of rot n] obtain h2 W2 where
      scan: "helper_scan rot h1 p n n = Some h2"
      and ch2: "chain h2 (Some p) (p # W2 @ dropWhile (unflagged h1) C)"
      and ms2: "mset W2 = mset ([] @ n # takeWhile (unflagged h1) C)"
      and fl2: "\<forall>x. quadrant_flags (h2 x) = quadrant_flags (h1 x)"
      and pay2: "same_payload h1 h2"
      and o2: "\<forall>x. x \<notin> set (p # [] @ n # takeWhile (unflagged h1) C) \<longrightarrow> h2 x = h1 x"
      by blast
    from fl2 have big2: "is_bigger h2 = is_bigger h" and id2: "is_identical h2 = is_identical h1"
      by (simp_all add: fun_eq_iff is_bigger_def is_identical_def big1 [symmetric])
    from ms2 have ms2': "mset W2 = mset (n # takeWhile (unflagged h) C)"
      by (simp add: big1)
    then have setW2: "set W2 = set (n # takeWhile (unflagged h) C)"
      by (rule mset_eq_setD)
    have allW2: "\<forall>x \<in> set W2. unflagged h x"
      using nbB by (auto simp add: setW2 dest: set_takeWhileD)
    define X2 where "X2 = W2 @ dropWhile (unflagged h) C"
    have tw2: "takeWhile (unflagged h2) X2 = W2"
      unfolding X2_def big2 by (rule takeWhile_over_dropWhile [OF allW2])
    have dw2: "dropWhile (unflagged h2) X2 = dropWhile (unflagged h) C"
      unfolding X2_def big2 by (rule dropWhile_over_dropWhile [OF allW2])
    from ch2 have ch2': "chain h2 (Some p) (p # X2)"
      by (simp add: X2_def big1)
    have twX: "takeWhile (unflagged h) X = B @ n # takeWhile (unflagged h) C"
      using nbB by (simp add: X)
    have dwX: "dropWhile (unflagged h) X = dropWhile (unflagged h) C"
      using nbB by (simp add: X)
    from d have nC: "n \<notin> set C" by auto
    have "length (filter (is_identical h2) (takeWhile (unflagged h2) X2))
            = length (filter (is_identical h1) (n # takeWhile (unflagged h) C))"
      by (simp only: tw2 id2 filter_length_mset [OF ms2'])
    also have "\<dots> = length (filter (is_identical h1) (takeWhile (unflagged h) C))"
      using nid1 by simp
    also have "filter (is_identical h1) (takeWhile (unflagged h) C)
                 = filter (is_identical h) (takeWhile (unflagged h) C)"
      using nC id1 by (intro filter_cong) (auto dest: set_takeWhileD)
    also have "length (filter (is_identical h) (takeWhile (unflagged h) C))
                 < length (filter (is_identical h) (takeWhile (unflagged h) X))"
      using idn nidB by (simp add: twX)
    finally have "length (filter (is_identical h2) (takeWhile (unflagged h2) X2))
                    < length (filter (is_identical h) (takeWhile (unflagged h) X))" .
    from less.hyps [OF this ch2'] obtain h' W' where
      run: "helper_loop rot h2 p = Some h'"
      and ch': "chain h' (Some p) (p # W' @ dropWhile (unflagged h2) X2)"
      and ms': "mset W' = mset (takeWhile (unflagged h2) X2)"
      and pay': "same_payload h2 h'"
      and big': "\<forall>x. is_bigger h' x = is_bigger h2 x"
      and o': "\<forall>x. x \<notin> set (p # takeWhile (unflagged h2) X2) \<longrightarrow> h' x = h2 x"
      by blast
    have total: "\<forall>x. x \<notin> set (p # n # takeWhile (unflagged h) C) \<longrightarrow> h' x = h x"
    proof (intro allI impI)
      fix x assume x: "x \<notin> set (p # n # takeWhile (unflagged h) C)"
      then have "h' x = h2 x" using o' by (simp add: tw2 setW2)
      also from x have "h2 x = h1 x" using o2 by (simp add: big1)
      also from x have "h1 x = h x" using o1 by simp
      finally show "h' x = h x" .
    qed
    from fnd have fnd': "helper_find h ps = Some (Some (p, n))"
      by (simp only: p_def)
    from scan run have "helper_loop rot h ps = Some h'"
      by (subst helper_loop.simps) (simp add: fnd' h1_def [symmetric] Let_def)
    moreover have "chain h' (Some ps) (ps # (B @ W') @ dropWhile (unflagged h) X)"
    proof -
      from d have "\<forall>x \<in> set P. x \<notin> set (p # n # takeWhile (unflagged h) C)"
        by (auto dest: set_takeWhileD)
      with total have "\<forall>x \<in> set P. next_quadrant_ps (h' x) = next_quadrant_ps (h x)" by simp
      from chain_reattach [OF chh _ this, of "W' @ dropWhile (unflagged h) C"] ch'
      have "chain h' (Some ps) (P @ p # W' @ dropWhile (unflagged h) C)"
        by (simp add: dw2)
      then have "chain h' (Some ps) ((ps # B) @ W' @ dropWhile (unflagged h) C)"
        by (simp add: PB)
      then show ?thesis by (simp add: dwX)
    qed
    moreover have "mset (B @ W') = mset (takeWhile (unflagged h) X)"
      by (simp add: ms' tw2 ms2' twX)
    moreover have "same_payload h h'"
      using pay1 pay2 pay' by (blast intro: same_payload_trans)
    moreover have "\<forall>x. is_bigger h' x = is_bigger h x"
      using big' by (simp add: big2)
    moreover have "\<forall>x. x \<notin> set (ps # takeWhile (unflagged h) X) \<longrightarrow> h' x = h x"
    proof (intro allI impI)
      fix x assume "x \<notin> set (ps # takeWhile (unflagged h) X)"
      then have "x \<notin> set ((ps # B) @ n # takeWhile (unflagged h) C)" by (simp add: twX)
      then have "x \<notin> set (p # n # takeWhile (unflagged h) C)"
        by (simp add: PB)
      with total show "h' x = h x" by simp
    qed
    ultimately show ?thesis by blast
  qed
qed

section \<open>One reorder pass\<close>

lemma takeWhile_stop:
  assumes "\<forall>f fs. suf = f # fs \<longrightarrow> \<not> P f"
  shows "takeWhile P (win @ suf) = takeWhile P win"
proof (cases suf)
  case Nil
  then show ?thesis by simp
next
  case (Cons f fs)
  with assms have "\<not> P f" by simp
  with Cons show ?thesis by (induction win) simp_all
qed

lemma dropWhile_stop:
  assumes "\<forall>f fs. suf = f # fs \<longrightarrow> \<not> P f"
  shows "dropWhile P (win @ suf) = dropWhile P win @ suf"
proof (cases suf)
  case Nil
  then show ?thesis by simp
next
  case (Cons f fs)
  with assms have "\<not> P f" by simp
  with Cons show ?thesis by (induction win) simp_all
qed

text \<open>
  A whole pass on a chain: the skipped prefix \<open>pre\<close>, the window \<open>win\<close> and the
  rest \<open>suf\<close>.
\<close>

lemma helper_rotation_chain:
  assumes ch: "chain h (Some c) (c # xs)"
  shows "\<exists>h' pre win win' suf.
      paint_arrange_structs_helper_rotation rot h (Some c) q flag
        = Some (Inr (h', Some (last (c # pre))))
    \<and> xs = pre @ win @ suf
    \<and> chain h' (Some c) (c # pre @ win' @ suf)
    \<and> mset win' = mset win
    \<and> same_payload h h'
    \<and> (\<forall>x \<in> set pre. quadrant_index (h x) < q)
    \<and> (\<forall>x \<in> set win. in_window h q x)
    \<and> (\<forall>f fs. suf = f # fs \<longrightarrow> \<not> in_window h q f)
    \<and> (\<forall>x. x \<notin> set (last (c # pre) # win @ take 1 suf) \<longrightarrow> h' x = h x)"
proof -
  define pre where "pre = takeWhile (\<lambda>x. quadrant_index (h x) < q) xs"
  define rest where "rest = dropWhile (\<lambda>x. quadrant_index (h x) < q) xs"
  define a where "a = last (c # pre)"
  define P where "P = butlast (c # pre)"
  have xs: "xs = pre @ rest" by (simp add: pre_def rest_def)
  have Pa: "c # pre = P @ [a]" by (simp add: a_def P_def)
  have pre_low: "\<forall>x \<in> set pre. quadrant_index (h x) < q"
    by (auto simp add: pre_def dest: set_takeWhileD)
  from helper_seek_chain [OF ch, of q]
  have seek: "helper_seek h c q = Some (a, case rest of [] \<Rightarrow> None | n # _ \<Rightarrow> Some n)"
    by (simp only: a_def pre_def rest_def)
  show ?thesis
  proof (cases rest)
    case Nil
    with seek have "paint_arrange_structs_helper_rotation rot h (Some c) q flag
        = Some (Inr (h, Some a))"
      by (simp add: paint_arrange_structs_helper_rotation_def)
    with ch xs Nil pre_low show ?thesis
      unfolding a_def
      by (intro exI [of _ h] exI [of _ pre] exI [of _ "[]"]) (simp add: same_payload_refl)
  next
    case (Cons n rs)
    define win where "win = takeWhile (in_window h q) rest"
    define suf where "suf = dropWhile (in_window h q) rest"
    have rest: "rest = win @ suf" by (simp add: win_def suf_def)
    have win_in: "\<forall>x \<in> set win. in_window h q x"
      by (auto simp add: win_def dest: set_takeWhileD)
    have suf_far: "\<forall>f fs. suf = f # fs \<longrightarrow> \<not> in_window h q f"
      by (simp add: suf_def dropWhile_eq_Cons_conv)
    have "c # xs = (c # pre) @ rest" by (simp add: xs)
    also have "\<dots> = (P @ [a]) @ rest" by (simp only: Pa)
    finally have eq: "c # xs = P @ a # rest" by simp
    from ch have chP: "chain h (Some c) (P @ a # rest)" by (simp only: eq)
    from chain_distinct [OF ch] have d: "distinct (P @ a # rest)" by (simp only: eq)
    from chP have cha: "chain h (Some a) (a # rest)" by (rule chain_suffix)
    from helper_mark_chain [OF cha, of q flag] obtain h1 where
      mark: "helper_mark h a q flag = Some h1"
      and l1: "\<forall>x. next_quadrant_ps (h1 x) = next_quadrant_ps (h x)"
      and pay1: "same_payload h h1"
      and o1: "\<forall>x. x \<notin> set (win @ take 1 suf) \<longrightarrow> h1 x = h x"
      and b1: "\<forall>f fs. suf = f # fs \<longrightarrow> is_bigger h1 f"
      unfolding win_def suf_def by blast
    from cha l1 have cha1: "chain h1 (Some a) (a # rest)"
      using chain_seg_cong [of "a # rest" h1 h "Some a" None] by simp
    from helper_loop_chain [OF cha1, of rot] obtain h2 W where
      loop: "helper_loop rot h1 a = Some h2"
      and ch2: "chain h2 (Some a) (a # W @ dropWhile (unflagged h1) rest)"
      and ms2: "mset W = mset (takeWhile (unflagged h1) rest)"
      and pay2: "same_payload h1 h2"
      and o2: "\<forall>x. x \<notin> set (a # takeWhile (unflagged h1) rest) \<longrightarrow> h2 x = h1 x"
      by blast
    from b1 have stop: "\<forall>f fs. suf = f # fs \<longrightarrow> \<not> unflagged h1 f"
      by simp
    have tw: "takeWhile (unflagged h1) rest = takeWhile (unflagged h1) win"
      unfolding rest using stop by (rule takeWhile_stop [of suf "unflagged h1" win])
    have dw: "dropWhile (unflagged h1) rest = dropWhile (unflagged h1) win @ suf"
      unfolding rest using stop by (rule dropWhile_stop [of suf "unflagged h1" win])
    define win' where "win' = W @ dropWhile (unflagged h1) win"
    have ms: "mset win' = mset win"
    proof -
      have "mset win' = mset (takeWhile (unflagged h1) win) + mset (dropWhile (unflagged h1) win)"
        by (simp add: win'_def ms2 tw)
      also have "\<dots> = mset (takeWhile (unflagged h1) win @ dropWhile (unflagged h1) win)"
        by (simp only: mset_append)
      also have "\<dots> = mset win"
        by (simp only: takeWhile_dropWhile_id)
      finally show ?thesis .
    qed
    from ch2 have ch2': "chain h2 (Some a) (a # win' @ suf)"
      by (simp add: win'_def dw)
    have frame: "\<forall>x. x \<notin> set (a # win @ take 1 suf) \<longrightarrow> h2 x = h x"
    proof (intro allI impI)
      fix x assume x: "x \<notin> set (a # win @ take 1 suf)"
      then have "x \<notin> set (a # takeWhile (unflagged h1) rest)"
        by (auto simp add: tw dest: set_takeWhileD)
      with o2 have "h2 x = h1 x" by simp
      also from x o1 have "h1 x = h x" by simp
      finally show "h2 x = h x" .
    qed
    have "\<forall>x \<in> set P. x \<notin> set (a # win @ take 1 suf)"
      using d by (auto simp add: rest dest: in_set_takeD)
    with frame have "\<forall>x \<in> set P. next_quadrant_ps (h2 x) = next_quadrant_ps (h x)" by simp
    from chain_reattach [OF chP ch2' this]
    have "chain h2 (Some c) ((P @ [a]) @ win' @ suf)" by simp
    then have final: "chain h2 (Some c) (c # pre @ win' @ suf)"
      by (simp only: Pa [symmetric]) simp
    from seek Cons mark loop
    have "paint_arrange_structs_helper_rotation rot h (Some c) q flag
        = Some (Inr (h2, Some a))"
      by (simp add: paint_arrange_structs_helper_rotation_def Let_def)
    moreover have "xs = pre @ win @ suf" by (simp add: xs rest)
    moreover from pay1 pay2 have "same_payload h h2" by (rule same_payload_trans)
    ultimately show ?thesis
      using final ms pre_low win_in suf_far frame unfolding a_def by blast
  qed
qed

lemma helper_dispatch:
  "rotation \<in> {0, 1, 2, 3} \<Longrightarrow>
     paint_arrange_structs_helper h p q flag rotation
       = paint_arrange_structs_helper_rotation rotation h p q flag"
  by (auto simp add: paint_arrange_structs_helper_def)

lemma rotation_masked: "get_current_rotation g \<in> {0, 1, 2, 3}"
proof -
  have "g AND 3 \<le> 3" by (rule word_and_le1)
  then have "unat (g AND 3) \<le> 3" by (simp add: word_le_nat_alt)
  then show ?thesis
    by (auto simp add: get_current_rotation_def word_unat_eq_iff)
qed

section \<open>The bucket loop\<close>

lemma merge_walk_chain:
  assumes "chain h (Some b) (b # ys)"
  shows "merge_walk h b = Some (last (b # ys))"
  using assms
proof (induction ys arbitrary: b)
  case Nil
  then show ?case by (subst merge_walk.simps) simp
next
  case (Cons y ys)
  then have "next_quadrant_ps (h b) = Some y" and "chain h (Some y) (y # ys)" by simp_all
  with Cons.IH [of y] show ?case by (subst merge_walk.simps) simp
qed

lemma merge_bucket:
  assumes main: "chain h p0 (D @ [ps])" and bucket: "chain h q B"
    and disj: "set (D @ [ps]) \<inter> set B = {}"
  shows "\<exists>h1 ps1.
      (case q of
         None \<Rightarrow> Some (h, ps)
       | Some ps_next \<Rightarrow>
           (let h' = set_next_quadrant_ps h ps (Some ps_next) in
            case merge_walk h' ps_next of
              None \<Rightarrow> None
            | Some ps' \<Rightarrow> Some (h', ps'))) = Some (h1, ps1)
    \<and> chain h1 p0 (D @ ps # B) \<and> ps1 = last (ps # B)
    \<and> (\<forall>x. x \<noteq> ps \<longrightarrow> h1 x = h x)
    \<and> same_payload h h1
    \<and> (\<forall>x. quadrant_flags (h1 x) = quadrant_flags (h x))"
proof (cases B)
  case Nil
  with bucket have "q = None" by simp
  with main Nil show ?thesis by (simp add: same_payload_refl)
next
  case (Cons b ys)
  with bucket have q: "q = Some b" by simp
  define h' where "h' = set_next_quadrant_ps h ps (Some b)"
  have other: "\<forall>x. x \<noteq> ps \<longrightarrow> h' x = h x"
    by (simp add: h'_def set_next_quadrant_ps_def)
  have nps: "next_quadrant_ps (h' ps) = Some b"
    by (simp add: h'_def set_next_quadrant_ps_def)
  from disj have "\<forall>x \<in> set B. next_quadrant_ps (h' x) = next_quadrant_ps (h x)"
    using other by auto
  with bucket have chB: "chain h' q B"
    using chain_seg_cong [of B h' h q None] by simp
  then have "merge_walk h' b = Some (last (b # ys))"
    unfolding q Cons by (rule merge_walk_chain)
  then have run: "(case q of
         None \<Rightarrow> Some (h, ps)
       | Some ps_next \<Rightarrow>
           (let h' = set_next_quadrant_ps h ps (Some ps_next) in
            case merge_walk h' ps_next of
              None \<Rightarrow> None
            | Some ps' \<Rightarrow> Some (h', ps'))) = Some (h', last (ps # B))"
    by (simp add: q Cons h'_def [symmetric])
  from main have seg: "chain_seg h p0 D (Some ps)"
    by (auto simp add: chain_seg_append)
  from chain_distinct [OF main] have "ps \<notin> set D" by simp
  then have "\<forall>x \<in> set D. next_quadrant_ps (h' x) = next_quadrant_ps (h x)"
    using other by auto
  with seg have "chain_seg h' p0 D (Some ps)"
    using chain_seg_cong [of D h' h p0 "Some ps"] by simp
  moreover from chB nps have "chain h' (Some ps) (ps # B)" by (simp add: q)
  ultimately have "chain h' p0 (D @ ps # B)"
    by (auto simp add: chain_seg_append)
  moreover have "same_payload h h'"
    by (simp add: h'_def same_payload_next)
  moreover have "\<forall>x. quadrant_flags (h' x) = quadrant_flags (h x)"
    by (simp add: h'_def set_next_quadrant_ps_def)
  ultimately show ?thesis using run other by blast
qed

text \<open>
  The bucket loop appends the lists of the buckets \<open>qi\<close> to front, in this order,
  to the chain that ends in \<open>ps\<close>.
\<close>

lemma quadrant_merge_chain:
  assumes "unat qi \<le> unat (QuadrantFrontIndex s)"
    and "unat (QuadrantFrontIndex s) < MAX_PAINT_QUADRANTS"
    and "chain h p0 (D @ [ps])"
    and "\<forall>i. unat qi \<le> i \<and> i \<le> unat (QuadrantFrontIndex s) \<longrightarrow>
           chain h (Quadrants s i) (bs i) \<and> set (D @ [ps]) \<inter> set (bs i) = {}"
    and "\<forall>i j. unat qi \<le> i \<and> i < j \<and> j \<le> unat (QuadrantFrontIndex s) \<longrightarrow>
           set (bs i) \<inter> set (bs j) = {}"
  shows "\<exists>h' ps'. quadrant_merge s h ps qi = Some (Inr (h', ps'))
      \<and> chain h' p0 (D @ ps # concat (map bs [unat qi ..< Suc (unat (QuadrantFrontIndex s))]))
      \<and> same_payload h h'
      \<and> (\<forall>x. quadrant_flags (h' x) = quadrant_flags (h x))
      \<and> (\<forall>x. x \<notin> set (D @ ps # concat (map bs [unat qi ..< Suc (unat (QuadrantFrontIndex s))]))
             \<longrightarrow> h' x = h x)"
  using assms
proof (induction "unat (QuadrantFrontIndex s) - unat qi" arbitrary: h ps qi D)
  case 0
  define i0 where "i0 = unat qi"
  from 0 have last: "i0 = unat (QuadrantFrontIndex s)" and small: "i0 < MAX_PAINT_QUADRANTS"
    by (simp_all add: i0_def)
  from 0 have "chain h (Quadrants s i0) (bs i0)" and "set (D @ [ps]) \<inter> set (bs i0) = {}"
    by (simp_all add: i0_def)
  from merge_bucket [OF "0.prems"(3) this] obtain h1 ps1 where
    step: "(case Quadrants s i0 of
         None \<Rightarrow> Some (h, ps)
       | Some ps_next \<Rightarrow>
           (let h' = set_next_quadrant_ps h ps (Some ps_next) in
            case merge_walk h' ps_next of
              None \<Rightarrow> None
            | Some ps' \<Rightarrow> Some (h', ps'))) = Some (h1, ps1)"
    and ch1: "chain h1 p0 (D @ ps # bs i0)"
    and o1: "\<forall>x. x \<noteq> ps \<longrightarrow> h1 x = h x"
    and pay1: "same_payload h h1"
    and fl1: "\<forall>x. quadrant_flags (h1 x) = quadrant_flags (h x)"
    by blast
  from small have "unat qi + 1 < 2 ^ 32"
    by (simp add: i0_def MAX_PAINT_QUADRANTS_def)
  then have suc: "unat (qi + 1) = unat qi + 1"
    by (simp add: unat_word_ariths)
  from last have "\<not> qi + 1 \<le> QuadrantFrontIndex s"
    by (simp add: word_le_nat_alt suc i0_def)
  with small step have "quadrant_merge s h ps qi = Some (Inr (h1, ps1))"
    by (subst quadrant_merge.simps) (simp add: i0_def)
  moreover have "[unat qi ..< Suc (unat (QuadrantFrontIndex s))] = [i0]"
    by (simp add: i0_def last [symmetric, unfolded i0_def])
  ultimately show ?case
    using ch1 o1 pay1 fl1 by (intro exI [of _ h1] exI [of _ ps1]) simp
next
  case (Suc n)
  define i0 where "i0 = unat qi"
  define front where "front = unat (QuadrantFrontIndex s)"
  from Suc have more: "i0 < front" and small: "front < MAX_PAINT_QUADRANTS"
    by (simp_all add: i0_def front_def)
  from Suc.prems(4) more have b0: "chain h (Quadrants s i0) (bs i0)"
    and d0: "set (D @ [ps]) \<inter> set (bs i0) = {}"
    by (simp_all add: i0_def front_def)
  from merge_bucket [OF Suc.prems(3) b0 d0] obtain h1 ps1 where
    step: "(case Quadrants s i0 of
         None \<Rightarrow> Some (h, ps)
       | Some ps_next \<Rightarrow>
           (let h' = set_next_quadrant_ps h ps (Some ps_next) in
            case merge_walk h' ps_next of
              None \<Rightarrow> None
            | Some ps' \<Rightarrow> Some (h', ps'))) = Some (h1, ps1)"
    and ch1: "chain h1 p0 (D @ ps # bs i0)"
    and ps1: "ps1 = last (ps # bs i0)"
    and o1: "\<forall>x. x \<noteq> ps \<longrightarrow> h1 x = h x"
    and pay1: "same_payload h h1"
    and fl1: "\<forall>x. quadrant_flags (h1 x) = quadrant_flags (h x)"
    by blast
  from more small have "unat qi + 1 < 2 ^ 32"
    by (simp add: i0_def MAX_PAINT_QUADRANTS_def)
  then have suc: "unat (qi + 1) = i0 + 1"
    by (simp add: unat_word_ariths i0_def)
  from more have cont: "qi + 1 \<le> QuadrantFrontIndex s"
    by (simp add: word_le_nat_alt suc front_def)
  from more small cont step have unfold: "quadrant_merge s h ps qi = quadrant_merge s h1 ps1 (qi + 1)"
    by (subst quadrant_merge.simps) (simp add: i0_def front_def)
  define D' where "D' = butlast (D @ ps # bs i0)"
  have D': "D' @ [ps1] = D @ ps # bs i0"
    unfolding D'_def ps1 by (simp add: butlast_append)
  have setD': "set (D' @ [ps1]) = set (D @ [ps]) \<union> set (bs i0)"
    by (simp only: D') auto
  from ch1 have c1: "chain h1 p0 (D' @ [ps1])" by (simp only: D')
  have c2: "\<forall>i. unat (qi + 1) \<le> i \<and> i \<le> unat (QuadrantFrontIndex s) \<longrightarrow>
           chain h1 (Quadrants s i) (bs i) \<and> set (D' @ [ps1]) \<inter> set (bs i) = {}"
  proof (intro allI impI)
    fix i assume i: "unat (qi + 1) \<le> i \<and> i \<le> unat (QuadrantFrontIndex s)"
    then have i': "unat qi \<le> i \<and> i \<le> unat (QuadrantFrontIndex s)" and lt: "i0 < i"
      by (simp_all add: suc i0_def)
    with Suc.prems(4) have a: "chain h (Quadrants s i) (bs i)"
      and b: "set (D @ [ps]) \<inter> set (bs i) = {}" by simp_all
    from b o1 have "\<forall>x \<in> set (bs i). next_quadrant_ps (h1 x) = next_quadrant_ps (h x)" by auto
    with a have "chain h1 (Quadrants s i) (bs i)"
      using chain_seg_cong [of "bs i" h1 h "Quadrants s i" None] by simp
    moreover from Suc.prems(5) lt i have "set (bs i0) \<inter> set (bs i) = {}"
      by (simp add: i0_def)
    with b have "set (D' @ [ps1]) \<inter> set (bs i) = {}"
      by (simp only: setD') auto
    ultimately show "chain h1 (Quadrants s i) (bs i) \<and> set (D' @ [ps1]) \<inter> set (bs i) = {}"
      by simp
  qed
  have c3: "\<forall>i j. unat (qi + 1) \<le> i \<and> i < j \<and> j \<le> unat (QuadrantFrontIndex s) \<longrightarrow>
           set (bs i) \<inter> set (bs j) = {}"
    using Suc.prems(5) by (simp add: suc i0_def)
  have m: "n = unat (QuadrantFrontIndex s) - unat (qi + 1)"
    using Suc.hyps(2) by (simp add: suc i0_def)
  have le: "unat (qi + 1) \<le> unat (QuadrantFrontIndex s)"
    using more by (simp add: suc front_def)
  define rng where "rng = [unat (qi + 1) ..< Suc (unat (QuadrantFrontIndex s))]"
  from Suc.hyps(1) [OF m le Suc.prems(2) c1 c2 c3] obtain h' ps' where
    run: "quadrant_merge s h1 ps1 (qi + 1) = Some (Inr (h', ps'))"
    and ch': "chain h' p0 (D' @ ps1 # concat (map bs rng))"
    and pay': "same_payload h1 h'"
    and fl': "\<forall>x. quadrant_flags (h' x) = quadrant_flags (h1 x)"
    and o': "\<forall>x. x \<notin> set (D' @ ps1 # concat (map bs rng)) \<longrightarrow> h' x = h1 x"
    unfolding rng_def by blast
  have range: "[unat qi ..< Suc (unat (QuadrantFrontIndex s))] = i0 # rng"
    unfolding rng_def using more by (simp add: suc i0_def front_def upt_conv_Cons)
  have lists: "D' @ ps1 # concat (map bs rng)
        = D @ ps # concat (map bs [unat qi ..< Suc (unat (QuadrantFrontIndex s))])"
  proof -
    have "(D' @ [ps1]) @ concat (map bs rng) = (D @ ps # bs i0) @ concat (map bs rng)"
      by (simp only: D')
    then show ?thesis unfolding range by simp
  qed
  from run unfold have "quadrant_merge s h ps qi = Some (Inr (h', ps'))" by simp
  moreover from ch' have "chain h' p0 (D @ ps # concat (map bs [unat qi ..< Suc (unat (QuadrantFrontIndex s))]))"
    by (simp only: lists)
  moreover from pay1 pay' have "same_payload h h'" by (rule same_payload_trans)
  moreover from fl1 fl' have "\<forall>x. quadrant_flags (h' x) = quadrant_flags (h x)" by simp
  moreover have "\<forall>x. x \<notin> set (D @ ps # concat (map bs [unat qi ..< Suc (unat (QuadrantFrontIndex s))]))
             \<longrightarrow> h' x = h x"
  proof (intro allI impI)
    fix x assume x: "x \<notin> set (D @ ps # concat (map bs [unat qi ..< Suc (unat (QuadrantFrontIndex s))]))"
    then have "h' x = h1 x" using o' by (simp only: lists) simp
    moreover from x have "x \<noteq> ps" by simp
    ultimately show "h' x = h x" using o1 by simp
  qed
  ultimately show ?case by blast
qed

section \<open>The driver\<close>

text \<open>
  A pass started at any node of the chain behind \<open>p0\<close> keeps that chain a chain
  of the same nodes and returns one of them.
\<close>

lemma helper_call:
  assumes ch: "chain h (Some p0) (p0 # ys)" and c: "c \<in> set (p0 # ys)"
    and rot: "rotation \<in> {0, 1, 2, 3}"
  shows "\<exists>h' a ys'. paint_arrange_structs_helper h (Some c) q flag rotation = Some (Inr (h', Some a))
     \<and> chain h' (Some p0) (p0 # ys') \<and> mset ys' = mset ys \<and> a \<in> set (p0 # ys')
     \<and> same_payload h h' \<and> (\<forall>x. x \<notin> set (p0 # ys) \<longrightarrow> h' x = h x)"
proof -
  from split_list [OF c] obtain P zs where split: "p0 # ys = P @ c # zs"
    by blast
  from ch have chP: "chain h (Some p0) (P @ c # zs)" by (simp only: split)
  from chain_distinct [OF ch] have d: "distinct (P @ c # zs)" by (simp only: split)
  from chP have "chain h (Some c) (c # zs)" by (rule chain_suffix)
  from helper_rotation_chain [OF this, of rotation q flag] obtain h' pre win win' suf where
    run: "paint_arrange_structs_helper_rotation rotation h (Some c) q flag
            = Some (Inr (h', Some (last (c # pre))))"
    and zs: "zs = pre @ win @ suf"
    and ch': "chain h' (Some c) (c # pre @ win' @ suf)"
    and ms: "mset win' = mset win"
    and pay: "same_payload h h'"
    and fr: "\<forall>x. x \<notin> set (last (c # pre) # win @ take 1 suf) \<longrightarrow> h' x = h x"
    by blast
  have sub: "set (last (c # pre) # win @ take 1 suf) \<subseteq> set (c # zs)"
  proof -
    have "last (c # pre) \<in> set (c # pre)" by (rule last_in_set) simp
    then show ?thesis by (auto simp add: zs dest: in_set_takeD)
  qed
  with fr have outside: "\<forall>x. x \<notin> set (c # zs) \<longrightarrow> h' x = h x" by blast
  from d have "\<forall>x \<in> set P. x \<notin> set (c # zs)" by auto
  with outside have "\<forall>x \<in> set P. next_quadrant_ps (h' x) = next_quadrant_ps (h x)" by simp
  from chain_reattach [OF chP ch' this]
  have chL: "chain h' (Some p0) (P @ c # pre @ win' @ suf)" .
  define L where "L = P @ c # pre @ win' @ suf"
  from chL have "L \<noteq> []" and "hd L = p0"
    by (cases P; simp add: L_def)+
  then have L: "L = p0 # tl L" by (cases L) simp_all
  have "mset L = mset (P @ c # zs)" by (simp add: L_def zs ms)
  then have "mset (p0 # tl L) = mset (p0 # ys)" using L split by simp
  then have m: "mset (tl L) = mset ys" by simp
  have "last (c # pre) \<in> set (c # pre)" by (rule last_in_set) simp
  then have "last (c # pre) \<in> set L" by (auto simp add: L_def)
  then have a: "last (c # pre) \<in> set (p0 # tl L)" using L by simp
  from chL have "chain h' (Some p0) (p0 # tl L)" using L by (simp add: L_def)
  moreover from run rot have "paint_arrange_structs_helper h (Some c) q flag rotation
        = Some (Inr (h', Some (last (c # pre))))"
    by (simp only: helper_dispatch)
  moreover from outside have "\<forall>x. x \<notin> set (p0 # ys) \<longrightarrow> h' x = h x"
    by (simp only: split) auto
  ultimately show ?thesis using m a pay by blast
qed

lemma arrange_passes_chain:
  assumes "chain h (Some p0) (p0 # ys)" and "c \<in> set (p0 # ys)"
    and "rotation \<in> {0, 1, 2, 3}" and "qi \<noteq> UINT32_MAX"
  shows "\<exists>h' ys'. arrange_passes s rotation h (Some c) qi = Some (Inr h')
     \<and> chain h' (Some p0) (p0 # ys') \<and> mset ys' = mset ys
     \<and> same_payload h h' \<and> (\<forall>x. x \<notin> set (p0 # ys) \<longrightarrow> h' x = h x)"
  using assms
proof (induction "unat (QuadrantFrontIndex s) - unat qi" arbitrary: h c qi ys rule: less_induct)
  case less
  show ?case
  proof (cases "qi + 1 < QuadrantFrontIndex s")
    case False
    then have "arrange_passes s rotation h (Some c) qi = Some (Inr h)"
      by (subst arrange_passes.simps) simp
    with less.prems(1) show ?thesis
      by (intro exI [of _ h] exI [of _ ys]) (simp add: same_payload_refl)
  next
    case True
    from less.prems(4) have "1 + qi \<noteq> 0"
      by (simp add: UINT32_MAX_def add_eq_0_iff)
    then have "unat (1 + qi) = Suc (unat qi)" by (rule unatSuc)
    then have suc: "unat (qi + 1) = Suc (unat qi)" by (simp add: add.commute)
    from True have lt: "unat (qi + 1) < unat (QuadrantFrontIndex s)"
      by (simp add: word_less_nat_alt)
    from helper_call [OF less.prems(1,2,3), of "ucast ((qi + 1) AND 0xFFFF)" 0]
    obtain h1 a ys1 where
      call: "paint_arrange_structs_helper h (Some c) (ucast ((qi + 1) AND 0xFFFF)) 0 rotation
               = Some (Inr (h1, Some a))"
      and ch1: "chain h1 (Some p0) (p0 # ys1)" and ms1: "mset ys1 = mset ys"
      and a: "a \<in> set (p0 # ys1)" and pay1: "same_payload h h1"
      and o1: "\<forall>x. x \<notin> set (p0 # ys) \<longrightarrow> h1 x = h x"
      by blast
    have m: "unat (QuadrantFrontIndex s) - unat (qi + 1) < unat (QuadrantFrontIndex s) - unat qi"
      using lt by (simp add: suc)
    have nm: "qi + 1 \<noteq> UINT32_MAX"
    proof
      assume "qi + 1 = UINT32_MAX"
      with True have "(- 1 :: 32 word) < QuadrantFrontIndex s" by (simp add: UINT32_MAX_def)
      then show False by simp
    qed
    from less.hyps [OF m ch1 a less.prems(3) nm] obtain h' ys' where
      run: "arrange_passes s rotation h1 (Some a) (qi + 1) = Some (Inr h')"
      and ch': "chain h' (Some p0) (p0 # ys')" and ms': "mset ys' = mset ys1"
      and pay': "same_payload h1 h'"
      and o': "\<forall>x. x \<notin> set (p0 # ys1) \<longrightarrow> h' x = h1 x"
      by blast
    from ms1 have sets: "set ys1 = set ys" by (rule mset_eq_setD)
    from True call run have "arrange_passes s rotation h (Some c) qi = Some (Inr h')"
      by (subst arrange_passes.simps) simp
    moreover from ms1 ms' have "mset ys' = mset ys" by simp
    moreover from pay1 pay' have "same_payload h h'" by (rule same_payload_trans)
    moreover from o1 o' have "\<forall>x. x \<notin> set (p0 # ys) \<longrightarrow> h' x = h x"
      by (simp add: sets)
    ultimately show ?thesis using ch' by blast
  qed
qed

lemma session_heap_store: "session_heap (store_heap h s) = h"
  by (auto simp add: session_heap_def store_heap_def fun_eq_iff split: ps_ref.splits)

lemma merge_phase:
  assumes wf: "buckets_wf s bs"
    and le: "QuadrantBackIndex s \<le> QuadrantFrontIndex s"
    and small: "unat (QuadrantFrontIndex s) < MAX_PAINT_QUADRANTS"
  shows "\<exists>h1 t.
       quadrant_merge s (set_next_quadrant_ps (session_heap s) HeadRef None) HeadRef
           (QuadrantBackIndex s) = Some (Inr (h1, t))
     \<and> chain h1 (Some HeadRef)
         (HeadRef # concat (map bs [unat (QuadrantBackIndex s) ..< Suc (unat (QuadrantFrontIndex s))]))
     \<and> same_payload (session_heap s) h1
     \<and> (\<forall>x. x \<notin> set (HeadRef # concat (map bs [unat (QuadrantBackIndex s) ..< Suc (unat (QuadrantFrontIndex s))]))
            \<longrightarrow> h1 x = session_heap s x)"
proof -
  define h0 where "h0 = set_next_quadrant_ps (session_heap s) HeadRef None"
  define all where "all = concat (map bs [unat (QuadrantBackIndex s) ..< Suc (unat (QuadrantFrontIndex s))])"
  have o0: "\<forall>x. x \<noteq> HeadRef \<longrightarrow> h0 x = session_heap s x"
    by (simp add: h0_def set_next_quadrant_ps_def)
  have pay0: "same_payload (session_heap s) h0"
    by (simp add: h0_def same_payload_next)
  have c1: "chain h0 (Some HeadRef) ([] @ [HeadRef])"
    by (simp add: h0_def set_next_quadrant_ps_def)
  from le have le': "unat (QuadrantBackIndex s) \<le> unat (QuadrantFrontIndex s)"
    by (simp add: word_le_nat_alt)
  have c2: "\<forall>i. unat (QuadrantBackIndex s) \<le> i \<and> i \<le> unat (QuadrantFrontIndex s) \<longrightarrow>
           chain h0 (Quadrants s i) (bs i) \<and> set ([] @ [HeadRef]) \<inter> set (bs i) = {}"
  proof (intro allI impI)
    fix i assume "unat (QuadrantBackIndex s) \<le> i \<and> i \<le> unat (QuadrantFrontIndex s)"
    with small have "i < MAX_PAINT_QUADRANTS" by simp
    with wf have a: "chain (session_heap s) (Quadrants s i) (bs i)" and b: "HeadRef \<notin> set (bs i)"
      by (simp_all add: buckets_wf_def)
    have "\<forall>x \<in> set (bs i). next_quadrant_ps (h0 x) = next_quadrant_ps (session_heap s x)"
    proof
      fix x assume "x \<in> set (bs i)"
      with b have "x \<noteq> HeadRef" by auto
      with o0 show "next_quadrant_ps (h0 x) = next_quadrant_ps (session_heap s x)" by simp
    qed
    with a have "chain h0 (Quadrants s i) (bs i)"
      using chain_seg_cong [of "bs i" h0 "session_heap s" "Quadrants s i" None] by simp
    with b show "chain h0 (Quadrants s i) (bs i) \<and> set ([] @ [HeadRef]) \<inter> set (bs i) = {}"
      by simp
  qed
  have c3: "\<forall>i j. unat (QuadrantBackIndex s) \<le> i \<and> i < j \<and> j \<le> unat (QuadrantFrontIndex s) \<longrightarrow>
           set (bs i) \<inter> set (bs j) = {}"
    using wf small by (simp add: buckets_wf_def)
  from quadrant_merge_chain [OF le' small c1 c2 c3] obtain h1 t where
    merge: "quadrant_merge s h0 HeadRef (QuadrantBackIndex s) = Some (Inr (h1, t))"
    and ch1: "chain h1 (Some HeadRef) (HeadRef # all)"
    and pay1: "same_payload h0 h1"
    and o1: "\<forall>x. x \<notin> set (HeadRef # all) \<longrightarrow> h1 x = h0 x"
    unfolding all_def by auto
  from pay0 pay1 have "same_payload (session_heap s) h1" by (rule same_payload_trans)
  moreover from o0 o1 have "\<forall>x. x \<notin> set (HeadRef # all) \<longrightarrow> h1 x = session_heap s x"
    by simp
  ultimately show ?thesis
    using merge ch1 unfolding h0_def all_def by blast
qed

lemma arrange_occupied:
  assumes wf: "buckets_wf s bs" and ne: "QuadrantBackIndex s \<noteq> UINT32_MAX"
    and le: "QuadrantBackIndex s \<le> QuadrantFrontIndex s"
    and small: "unat (QuadrantFrontIndex s) < MAX_PAINT_QUADRANTS"
  shows "\<exists>h' ys. paint_session_arrange g s = Some (Inr (store_heap h' s))
     \<and> chain h' (Some HeadRef) (HeadRef # ys)
     \<and> mset ys = mset (concat (map bs [unat (QuadrantBackIndex s) ..< Suc (unat (QuadrantFrontIndex s))]))
     \<and> same_payload (session_heap s) h'
     \<and> (\<forall>x. x \<notin> set (HeadRef # concat (map bs [unat (QuadrantBackIndex s) ..< Suc (unat (QuadrantFrontIndex s))]))
            \<longrightarrow> h' x = session_heap s x)"
proof -
  define all where "all = concat (map bs [unat (QuadrantBackIndex s) ..< Suc (unat (QuadrantFrontIndex s))])"
  from merge_phase [OF wf le small] obtain h1 t where
    merge: "quadrant_merge s (set_next_quadrant_ps (session_heap s) HeadRef None) HeadRef
              (QuadrantBackIndex s) = Some (Inr (h1, t))"
    and ch1: "chain h1 (Some HeadRef) (HeadRef # all)"
    and pay1: "same_payload (session_heap s) h1"
    and o1: "\<forall>x. x \<notin> set (HeadRef # all) \<longrightarrow> h1 x = session_heap s x"
    unfolding all_def by blast
  have rot: "get_current_rotation g \<in> {0, 1, 2, 3}" by (rule rotation_masked)
  have "HeadRef \<in> set (HeadRef # all)" by simp
  from helper_call [OF ch1 this rot, of "ucast (QuadrantBackIndex s AND 0xFFFF)" PAINT_QUADRANT_FLAG_NEXT]
  obtain h2 a ys2 where
    call: "paint_arrange_structs_helper h1 (Some HeadRef) (ucast (QuadrantBackIndex s AND 0xFFFF))
             PAINT_QUADRANT_FLAG_NEXT (get_current_rotation g) = Some (Inr (h2, Some a))"
    and ch2: "chain h2 (Some HeadRef) (HeadRef # ys2)" and ms2: "mset ys2 = mset all"
    and a: "a \<in> set (HeadRef # ys2)" and pay2: "same_payload h1 h2"
    and o2: "\<forall>x. x \<notin> set (HeadRef # all) \<longrightarrow> h2 x = h1 x"
    by blast
  from arrange_passes_chain [OF ch2 a rot ne, of s] obtain h3 ys3 where
    passes: "arrange_passes s (get_current_rotation g) h2 (Some a) (QuadrantBackIndex s) = Some (Inr h3)"
    and ch3: "chain h3 (Some HeadRef) (HeadRef # ys3)" and ms3: "mset ys3 = mset ys2"
    and pay3: "same_payload h2 h3"
    and o3: "\<forall>x. x \<notin> set (HeadRef # ys2) \<longrightarrow> h3 x = h2 x"
    by blast
  from ms2 have sets: "set ys2 = set all" by (rule mset_eq_setD)
  from ne merge call passes have "paint_session_arrange g s = Some (Inr (store_heap h3 s))"
    by (simp add: paint_session_arrange_def Let_def)
  moreover from ms2 ms3 have "mset ys3 = mset all" by simp
  moreover from pay1 pay2 pay3 have "same_payload (session_heap s) h3"
    by (blast intro: same_payload_trans)
  moreover from o1 o2 o3 have "\<forall>x. x \<notin> set (HeadRef # all) \<longrightarrow> h3 x = session_heap s x"
    by (simp add: sets)
  ultimately show ?thesis using ch3 unfolding all_def by blast
qed

lemma arrange_empty:
  assumes "QuadrantBackIndex s = UINT32_MAX"
  shows "paint_session_arrange g s
           = Some (Inr (store_heap (set_next_quadrant_ps (session_heap s) HeadRef None) s))"
  using assms by (simp add: paint_session_arrange_def Let_def)

section \<open>Bucket lists and the example sessions\<close>

lemma payload_untouched: "payload p' = payload p \<longleftrightarrow> untouched_fields p p'"
  by (cases p, cases p') (auto simp add: payload_def untouched_fields_def)

lemma nested_wf: "session_wf nested_session nested_buckets"
  by (auto simp add: session_wf_def buckets_wf_def bounds_wf_def nested_session_def nested_buckets_def
        session_heap_def MAX_PAINT_QUADRANTS_def UINT32_MAX_def mk_ps_def)

lemma stacked_wf: "session_wf stacked_session stacked_buckets"
  by (auto simp add: session_wf_def buckets_wf_def bounds_wf_def stacked_session_def stacked_buckets_def
        session_heap_def MAX_PAINT_QUADRANTS_def UINT32_MAX_def mk_ps_def)

lemma empty_wf: "session_wf empty_session empty_buckets"
  by (simp add: session_wf_def buckets_wf_def bounds_wf_def empty_session_def empty_buckets_def)

lemma stacked_heap_chain: "chain stacked_heap (Some HeadRef) [HeadRef, SlotRef 0, SlotRef 1, SlotRef 2]"
  by (simp add: stacked_heap_def mk_ps_def)

lemma concat_all_empty: "(\<forall>i \<in> set js. bs i = []) \<Longrightarrow> concat (map bs js) = []"
  by (induction js) auto

lemma upt_split: "i \<le> j \<Longrightarrow> j \<le> k \<Longrightarrow> [i ..< k] = [i ..< j] @ [j ..< k]"
  using upt_add_eq_append [of i j "k - j"] by simp

lemma concat_occupied_range:
  assumes "b \<le> Suc f" and "Suc f \<le> n" and "\<forall>i < n. i < b \<or> f < i \<longrightarrow> bs i = []"
  shows "concat (map bs [0 ..< n]) = concat (map bs [b ..< Suc f])"
proof -
  have "[0 ..< n] = [0 ..< b] @ [b ..< n]"
    using assms(1,2) by (intro upt_split) simp_all
  also have "[b ..< n] = [b ..< Suc f] @ [Suc f ..< n]"
    using assms(1,2) by (intro upt_split)
  finally have sp: "[0 ..< n] = [0 ..< b] @ [b ..< Suc f] @ [Suc f ..< n]" .
  have e1: "concat (map bs [0 ..< b]) = []"
    using assms by (intro concat_all_empty) auto
  have e2: "concat (map bs [Suc f ..< n]) = []"
    using assms by (intro concat_all_empty) auto
  show ?thesis
    unfolding sp by (simp only: map_append concat_append e1 e2 append_Nil append_Nil2)
qed

lemma sorted_constant: "(\<forall>x \<in> set xs. f x = (n :: nat)) \<Longrightarrow> sorted (map f xs)"
  by (induction xs) auto

lemma sorted_buckets:
  assumes "\<forall>i < n. \<forall>x \<in> set (bs i). f x = i"
  shows "sorted (map f (concat (map bs [a ..< n])))"
  using assms
proof (induction n)
  case 0
  then show ?case by simp
next
  case (Suc n)
  then have IH: "sorted (map f (concat (map bs [a ..< n])))" by simp
  from Suc.prems have "sorted (map f (bs n))"
    by (intro sorted_constant [of _ _ n]) simp
  moreover
  have "\<forall>x \<in> set (concat (map bs [a ..< n])). \<forall>y \<in> set (bs n). f x \<le> f y"
  proof (intro ballI)
    fix x y assume "x \<in> set (concat (map bs [a ..< n]))" and y: "y \<in> set (bs n)"
    then obtain i where "i < n" and "x \<in> set (bs i)" by auto
    with Suc.prems have "f x = i" by simp
    moreover from y Suc.prems have "f y = n" by simp
    ultimately show "f x \<le> f y" using \<open>i < n\<close> by simp
  qed
  ultimately show ?case using IH by (auto simp add: sorted_append)
qed

section \<open>The bounding box test: results\<close>

text \<open>
  C1. For every pair of boxes and every rotation in 0..3, \<open>check_bounding_box\<close>
  is true exactly when the rotation's conjunction holds: the z condition, the y
  condition (\<open>\<ge>\<close> for rotations 0 and 1, \<open><\<close> for 2 and 3), the x condition
  (\<open>\<ge>\<close> for rotations 0 and 3, \<open><\<close> for 1 and 2) and the negated exclusion with
  the terms matched to the rotation.
\<close>

theorem check_bounding_box_iff:
  "r \<in> {0, 1, 2, 3} \<Longrightarrow> check_bounding_box r initial current = overlap_spec r initial current"
  by (auto simp add: check_bounding_box_def overlap_spec_def)

theorem check_bounding_box_iff_witness:
  "(1 :: 8 word) \<in> {0, 1, 2, 3}
   \<and> check_bounding_box 1 (mk_box 0 0 0 10 10 10) (mk_box 15 5 5 25 15 15)
   \<and> overlap_spec 1 (mk_box 0 0 0 10 10 10) (mk_box 15 5 5 25 15 15)"
  using check_bounding_box_iff [of 1 "mk_box 0 0 0 10 10 10" "mk_box 15 5 5 25 15 15"]
  by (simp add: overlap_spec_def mk_box_def)

text \<open>
  C7, as stated, fails: on the pair (0,0,0,10,10,10), (5,5,5,15,15,15) the four
  rotations all answer false, so no two of them differ.
\<close>

theorem rotation_pair_all_false:
  "check_bounding_box 0 (mk_box 0 0 0 10 10 10) (mk_box 5 5 5 15 15 15) = False
   \<and> check_bounding_box 1 (mk_box 0 0 0 10 10 10) (mk_box 5 5 5 15 15 15) = False
   \<and> check_bounding_box 2 (mk_box 0 0 0 10 10 10) (mk_box 5 5 5 15 15 15) = False
   \<and> check_bounding_box 3 (mk_box 0 0 0 10 10 10) (mk_box 5 5 5 15 15 15) = False"
  by (simp add: check_bounding_box_def mk_box_def)

text \<open>
  C7, amended: on that pair every rotation answers false; the test does depend on
  the rotation, as the pair (0,0,0,10,10,10), (15,5,5,25,15,15) shows, where
  rotation 0 answers false and rotation 1 answers true.
\<close>

theorem rotation_sensitivity:
  "(\<forall>r. \<not> check_bounding_box r (mk_box 0 0 0 10 10 10) (mk_box 5 5 5 15 15 15))
   \<and> \<not> check_bounding_box 0 (mk_box 0 0 0 10 10 10) (mk_box 15 5 5 25 15 15)
   \<and> check_bounding_box 1 (mk_box 0 0 0 10 10 10) (mk_box 15 5 5 25 15 15)"
  by (simp add: check_bounding_box_def mk_box_def)
section \<open>Conservation and the merged chain\<close>

text \<open>
  C2. For every well-formed session the chain behind the sentinel after
  \<open>paint_session_arrange\<close> holds exactly the primitives of the input buckets, each
  once.
\<close>

theorem arrange_conserves:
  assumes "session_wf s bs"
  shows "\<exists>s' ys. paint_session_arrange gCurrentRotation s = Some (Inr s')
     \<and> chain (session_heap s') (Some HeadRef) (HeadRef # ys)
     \<and> mset ys = mset (concat (map bs [0 ..< MAX_PAINT_QUADRANTS]))
     \<and> distinct ys"
proof (cases "QuadrantBackIndex s = UINT32_MAX")
  case True
  with assms have "\<forall>i \<in> set [0 ..< MAX_PAINT_QUADRANTS]. bs i = []"
    by (simp add: session_wf_def bounds_wf_def)
  then have "concat (map bs [0 ..< MAX_PAINT_QUADRANTS]) = []"
    by (rule concat_all_empty)
  moreover have "chain (set_next_quadrant_ps (session_heap s) HeadRef None) (Some HeadRef) (HeadRef # [])"
    by (simp add: set_next_quadrant_ps_def)
  ultimately show ?thesis
    using arrange_empty [OF True, of gCurrentRotation]
    by (intro exI [of _ "store_heap (set_next_quadrant_ps (session_heap s) HeadRef None) s"]
          exI [of _ "[]"]) (simp add: session_heap_store)
next
  case False
  with assms have wf: "buckets_wf s bs" and le: "QuadrantBackIndex s \<le> QuadrantFrontIndex s"
    and small: "unat (QuadrantFrontIndex s) < MAX_PAINT_QUADRANTS"
    and out: "\<forall>i < MAX_PAINT_QUADRANTS.
               i < unat (QuadrantBackIndex s) \<or> unat (QuadrantFrontIndex s) < i \<longrightarrow> bs i = []"
    by (simp_all add: session_wf_def bounds_wf_def)
  from arrange_occupied [OF wf False le small, of gCurrentRotation] obtain h' ys where
    run: "paint_session_arrange gCurrentRotation s = Some (Inr (store_heap h' s))"
    and ch: "chain h' (Some HeadRef) (HeadRef # ys)"
    and ms: "mset ys = mset (concat (map bs [unat (QuadrantBackIndex s) ..< Suc (unat (QuadrantFrontIndex s))]))"
    by blast
  from le have "unat (QuadrantBackIndex s) \<le> Suc (unat (QuadrantFrontIndex s))"
    by (simp add: word_le_nat_alt)
  moreover from small have "Suc (unat (QuadrantFrontIndex s)) \<le> MAX_PAINT_QUADRANTS" by simp
  ultimately have "concat (map bs [0 ..< MAX_PAINT_QUADRANTS])
      = concat (map bs [unat (QuadrantBackIndex s) ..< Suc (unat (QuadrantFrontIndex s))])"
    using out by (rule concat_occupied_range)
  with ms have "mset ys = mset (concat (map bs [0 ..< MAX_PAINT_QUADRANTS]))" by simp
  moreover from chain_distinct [OF ch] have "distinct ys" by simp
  ultimately show ?thesis
    using run ch by (intro exI [of _ "store_heap h' s"] exI [of _ ys]) (simp add: session_heap_store)
qed

theorem arrange_conserves_witness:
  "session_wf nested_session nested_buckets
   \<and> (\<exists>s' ys. paint_session_arrange 0 nested_session = Some (Inr s')
        \<and> chain (session_heap s') (Some HeadRef) (HeadRef # ys)
        \<and> mset ys = mset (concat (map nested_buckets [0 ..< MAX_PAINT_QUADRANTS]))
        \<and> distinct ys)"
  using arrange_conserves [OF nested_wf, of 0] nested_wf by blast

text \<open>
  C3. When the back index is not the empty sentinel, the bucket loop of
  \<open>paint_session_arrange\<close> leaves, before any reorder pass, the chain that is the
  concatenation of the bucket lists from the back to the front bucket, each in
  its own order; when every primitive of bucket \<open>i\<close> carries \<open>quadrant_index\<close>
  \<open>i\<close>, the indices along this chain are weakly increasing.
\<close>

theorem quadrant_merge_concatenates:
  assumes "buckets_wf s bs" and "QuadrantBackIndex s \<noteq> UINT32_MAX"
    and "QuadrantBackIndex s \<le> QuadrantFrontIndex s"
    and "unat (QuadrantFrontIndex s) < MAX_PAINT_QUADRANTS"
  shows "\<exists>h1 t.
       quadrant_merge s (set_next_quadrant_ps (session_heap s) HeadRef None) HeadRef
           (QuadrantBackIndex s) = Some (Inr (h1, t))
     \<and> chain h1 (Some HeadRef)
         (HeadRef # concat (map bs [unat (QuadrantBackIndex s) ..< Suc (unat (QuadrantFrontIndex s))]))
     \<and> (buckets_indexed s bs
          \<longrightarrow> sorted (map (\<lambda>x. unat (quadrant_index (h1 x)))
                 (concat (map bs [unat (QuadrantBackIndex s) ..< Suc (unat (QuadrantFrontIndex s))]))))"
proof -
  from merge_phase [OF assms(1,3,4)] obtain h1 t where
    merge: "quadrant_merge s (set_next_quadrant_ps (session_heap s) HeadRef None) HeadRef
              (QuadrantBackIndex s) = Some (Inr (h1, t))"
    and ch1: "chain h1 (Some HeadRef)
         (HeadRef # concat (map bs [unat (QuadrantBackIndex s) ..< Suc (unat (QuadrantFrontIndex s))]))"
    and pay1: "same_payload (session_heap s) h1"
    by blast
  have "sorted (map (\<lambda>x. unat (quadrant_index (h1 x)))
                 (concat (map bs [unat (QuadrantBackIndex s) ..< Suc (unat (QuadrantFrontIndex s))])))"
    if idx: "buckets_indexed s bs"
  proof -
    from assms(4) idx [unfolded buckets_indexed_def]
    have "\<forall>i < Suc (unat (QuadrantFrontIndex s)). \<forall>x \<in> set (bs i). unat (quadrant_index (h1 x)) = i"
      by (simp add: same_payload_index [OF pay1])
    then show ?thesis by (rule sorted_buckets)
  qed
  with merge ch1 show ?thesis by blast
qed

theorem quadrant_merge_concatenates_witness:
  "buckets_wf stacked_session stacked_buckets
   \<and> QuadrantBackIndex stacked_session \<noteq> UINT32_MAX
   \<and> QuadrantBackIndex stacked_session \<le> QuadrantFrontIndex stacked_session
   \<and> unat (QuadrantFrontIndex stacked_session) < MAX_PAINT_QUADRANTS
   \<and> buckets_indexed stacked_session stacked_buckets
   \<and> (\<exists>h1 t.
       quadrant_merge stacked_session
           (set_next_quadrant_ps (session_heap stacked_session) HeadRef None) HeadRef
           (QuadrantBackIndex stacked_session) = Some (Inr (h1, t))
     \<and> chain h1 (Some HeadRef)
         (HeadRef # concat (map stacked_buckets
            [unat (QuadrantBackIndex stacked_session) ..< Suc (unat (QuadrantFrontIndex stacked_session))]))
     \<and> sorted (map (\<lambda>x. unat (quadrant_index (h1 x)))
         (concat (map stacked_buckets
            [unat (QuadrantBackIndex stacked_session) ..< Suc (unat (QuadrantFrontIndex stacked_session))]))))"
proof -
  have a: "buckets_wf stacked_session stacked_buckets"
    using stacked_wf by (simp add: session_wf_def)
  have b: "QuadrantBackIndex stacked_session \<noteq> UINT32_MAX"
    by (simp add: stacked_session_def UINT32_MAX_def)
  have c: "QuadrantBackIndex stacked_session \<le> QuadrantFrontIndex stacked_session"
    by (simp add: stacked_session_def)
  have d: "unat (QuadrantFrontIndex stacked_session) < MAX_PAINT_QUADRANTS"
    by (simp add: stacked_session_def MAX_PAINT_QUADRANTS_def)
  have e: "buckets_indexed stacked_session stacked_buckets"
    by (simp add: buckets_indexed_def stacked_buckets_def stacked_session_def session_heap_def
          mk_ps_def)
  from quadrant_merge_concatenates [OF a b c d] e show ?thesis
    using a b c d by blast
qed

section \<open>The reorder pass: termination, locality, rotation\<close>

text \<open>
  C8. On a finite, null-terminated chain and with a rotation in 0..3, a call of
  \<open>paint_arrange_structs_helper\<close> terminates, and it returns a cursor.
\<close>

theorem reorder_pass_terminates:
  assumes "chain h (Some ps_next) xs" and "rotation \<in> {0, 1, 2, 3}"
  shows "\<exists>h' ps_cache.
     paint_arrange_structs_helper h (Some ps_next) quadrantIndex flag rotation
       = Some (Inr (h', Some ps_cache))"
proof -
  from assms(1) obtain ys where "xs = ps_next # ys" by (cases xs) auto
  with assms(1) have "chain h (Some ps_next) (ps_next # ys)" by simp
  from helper_rotation_chain [OF this, of rotation quadrantIndex flag] assms(2)
  show ?thesis by (auto simp only: helper_dispatch)
qed

theorem reorder_pass_terminates_witness:
  "chain stacked_heap (Some HeadRef) [HeadRef, SlotRef 0, SlotRef 1, SlotRef 2]
   \<and> (0 :: 8 word) \<in> {0, 1, 2, 3}
   \<and> (\<exists>h' ps_cache.
         paint_arrange_structs_helper stacked_heap (Some HeadRef) 5 PAINT_QUADRANT_FLAG_NEXT 0
           = Some (Inr (h', Some ps_cache)))"
proof -
  have r: "(0 :: 8 word) \<in> {0, 1, 2, 3}" by simp
  from reorder_pass_terminates [OF stacked_heap_chain r, of 5 PAINT_QUADRANT_FLAG_NEXT]
  show ?thesis using stacked_heap_chain r by blast
qed

text \<open>
  C4, as stated, fails: in \<open>stacked_session\<close> (buckets 5, 6, 7, one primitive
  each; well-formed by \<open>stacked_wf\<close>) the arranged chain is slot 2, slot 1, slot 0,
  so the primitive of bucket 5 comes after the primitive of bucket 7.
\<close>

theorem arrange_crosses_two_buckets:
  "(case paint_session_arrange 0 stacked_session of
      Some (Inr s') \<Rightarrow>
        chain (session_heap s') (Some HeadRef) [HeadRef, SlotRef 2, SlotRef 1, SlotRef 0]
        \<and> quadrant_index (PaintStructs s' 2) = 7 \<and> quadrant_index (PaintStructs s' 0) = 5
    | _ \<Rightarrow> False)"
  by code_simp

text \<open>
  C4, amended: one reorder pass at boundary \<open>q\<close>, started at cursor \<open>c\<close>, splits the
  chain behind \<open>c\<close> into the primitives it skips (bucket below \<open>q\<close>), the window
  that follows (bucket at most \<open>q + 1\<close>) and the rest, which starts at the first
  primitive of a bucket above \<open>q + 1\<close>. It returns the last skipped node, permutes
  the window and leaves the skipped part and the rest in place; no
  \<open>quadrant_index\<close> changes. It writes nothing outside the returned node, the
  window and the first node of the rest, so every node that is not on the chain
  from the cursor is as before, and a chain that leads to the cursor (the
  session's chain from the sentinel) keeps the part in front of the cursor.
\<close>

theorem reorder_pass_window:
  assumes "chain h (Some c) (c # xs)" and "rotation \<in> {0, 1, 2, 3}"
  shows "\<exists>h' pre win win' suf.
      paint_arrange_structs_helper h (Some c) q flag rotation
        = Some (Inr (h', Some (last (c # pre))))
    \<and> xs = pre @ win @ suf
    \<and> chain h' (Some c) (c # pre @ win' @ suf)
    \<and> mset win' = mset win
    \<and> (\<forall>x \<in> set pre. unat (quadrant_index (h x)) < unat q)
    \<and> (\<forall>x \<in> set win. unat (quadrant_index (h x)) \<le> unat q + 1)
    \<and> (\<forall>f fs. suf = f # fs \<longrightarrow> unat q + 1 < unat (quadrant_index (h f)))
    \<and> (\<forall>x. quadrant_index (h' x) = quadrant_index (h x))
    \<and> (\<forall>x. x \<notin> set (last (c # pre) # win @ take 1 suf) \<longrightarrow> h' x = h x)
    \<and> (\<forall>x. x \<notin> set (c # xs) \<longrightarrow> h' x = h x)
    \<and> (\<forall>p0 P. chain h p0 (P @ c # xs) \<longrightarrow> chain h' p0 (P @ c # pre @ win' @ suf))"
proof -
  from helper_rotation_chain [OF assms(1), of rotation q flag] obtain h' pre win win' suf where
    run: "paint_arrange_structs_helper_rotation rotation h (Some c) q flag
            = Some (Inr (h', Some (last (c # pre))))"
    and xs: "xs = pre @ win @ suf"
    and ch': "chain h' (Some c) (c # pre @ win' @ suf)"
    and ms: "mset win' = mset win"
    and pay: "same_payload h h'"
    and lo: "\<forall>x \<in> set pre. quadrant_index (h x) < q"
    and mid: "\<forall>x \<in> set win. in_window h q x"
    and far: "\<forall>f fs. suf = f # fs \<longrightarrow> \<not> in_window h q f"
    and fr: "\<forall>x. x \<notin> set (last (c # pre) # win @ take 1 suf) \<longrightarrow> h' x = h x"
    by blast
  have sub: "set (last (c # pre) # win @ take 1 suf) \<subseteq> set (c # xs)"
  proof -
    have "last (c # pre) \<in> set (c # pre)" by (rule last_in_set) simp
    then show ?thesis by (auto simp add: xs dest: in_set_takeD)
  qed
  with fr have outside: "\<forall>x. x \<notin> set (c # xs) \<longrightarrow> h' x = h x" by blast
  have prefix: "\<forall>p0 P. chain h p0 (P @ c # xs) \<longrightarrow> chain h' p0 (P @ c # pre @ win' @ suf)"
  proof (intro allI impI)
    fix p0 P assume whole: "chain h p0 (P @ c # xs)"
    from chain_distinct [OF whole] have "\<forall>x \<in> set P. x \<notin> set (c # xs)" by auto
    with outside have "\<forall>x \<in> set P. next_quadrant_ps (h' x) = next_quadrant_ps (h x)" by simp
    from chain_reattach [OF whole ch' this]
    show "chain h' p0 (P @ c # pre @ win' @ suf)" .
  qed
  from run assms(2) have "paint_arrange_structs_helper h (Some c) q flag rotation
        = Some (Inr (h', Some (last (c # pre))))"
    by (simp only: helper_dispatch)
  moreover from lo have "\<forall>x \<in> set pre. unat (quadrant_index (h x)) < unat q"
    by (simp add: word_less_nat_alt)
  moreover from mid have "\<forall>x \<in> set win. unat (quadrant_index (h x)) \<le> unat q + 1"
    by (simp add: in_window_def)
  moreover from far have "\<forall>f fs. suf = f # fs \<longrightarrow> unat q + 1 < unat (quadrant_index (h f))"
    by (simp add: in_window_def not_le)
  moreover from pay have "\<forall>x. quadrant_index (h' x) = quadrant_index (h x)"
    by (simp add: same_payload_index)
  ultimately show ?thesis using xs ch' ms fr outside prefix by blast
qed

theorem reorder_pass_window_witness:
  "chain stacked_heap (Some HeadRef) (HeadRef # [SlotRef 0, SlotRef 1, SlotRef 2])
   \<and> (0 :: 8 word) \<in> {0, 1, 2, 3}
   \<and> (\<exists>h' pre win win' suf.
      paint_arrange_structs_helper stacked_heap (Some HeadRef) 5 PAINT_QUADRANT_FLAG_NEXT 0
        = Some (Inr (h', Some (last (HeadRef # pre))))
    \<and> [SlotRef 0, SlotRef 1, SlotRef 2] = pre @ win @ suf
    \<and> chain h' (Some HeadRef) (HeadRef # pre @ win' @ suf)
    \<and> mset win' = mset win
    \<and> (\<forall>x \<in> set pre. unat (quadrant_index (stacked_heap x)) < unat (5 :: 16 word))
    \<and> (\<forall>x \<in> set win. unat (quadrant_index (stacked_heap x)) \<le> unat (5 :: 16 word) + 1)
    \<and> (\<forall>f fs. suf = f # fs \<longrightarrow> unat (5 :: 16 word) + 1 < unat (quadrant_index (stacked_heap f)))
    \<and> (\<forall>x. quadrant_index (h' x) = quadrant_index (stacked_heap x))
    \<and> (\<forall>x. x \<notin> set (last (HeadRef # pre) # win @ take 1 suf) \<longrightarrow> h' x = stacked_heap x)
    \<and> (\<forall>x. x \<notin> set (HeadRef # [SlotRef 0, SlotRef 1, SlotRef 2]) \<longrightarrow> h' x = stacked_heap x)
    \<and> (\<forall>p0 P. chain stacked_heap p0 (P @ HeadRef # [SlotRef 0, SlotRef 1, SlotRef 2])
          \<longrightarrow> chain h' p0 (P @ HeadRef # pre @ win' @ suf)))"
proof -
  have c: "chain stacked_heap (Some HeadRef) (HeadRef # [SlotRef 0, SlotRef 1, SlotRef 2])"
    using stacked_heap_chain by simp
  have r: "(0 :: 8 word) \<in> {0, 1, 2, 3}" by simp
  from reorder_pass_window [OF c r, of 5 PAINT_QUADRANT_FLAG_NEXT]
  show ?thesis using c r by blast
qed

text \<open>
  C5, as stated, fails: with the rotation value 4 the operation neither rejects
  nor skips the reordering; it does what it does for rotation 0, here the
  reordering of \<open>stacked_session\<close>.
\<close>

theorem rotation_four_acts_as_zero:
  "paint_session_arrange 4 stacked_session = paint_session_arrange 0 stacked_session
   \<and> (case paint_session_arrange 4 stacked_session of
         Some (Inr s') \<Rightarrow>
           chain (session_heap s') (Some HeadRef) [HeadRef, SlotRef 2, SlotRef 1, SlotRef 0]
       | _ \<Rightarrow> False)"
proof -
  have "paint_session_arrange 4 stacked_session = paint_session_arrange 0 stacked_session"
    by (simp add: paint_session_arrange_def get_current_rotation_def)
  moreover have "case paint_session_arrange 0 stacked_session of
         Some (Inr s') \<Rightarrow>
           chain (session_heap s') (Some HeadRef) [HeadRef, SlotRef 2, SlotRef 1, SlotRef 0]
       | _ \<Rightarrow> False"
    by code_simp
  ultimately show ?thesis by simp
qed

text \<open>
  C5, amended: \<open>paint_session_arrange\<close> reduces the rotation value to its two low
  bits, so every value \<open>r\<close> behaves as \<open>r AND 3\<close>, which is one of 0..3.
\<close>

theorem rotation_is_masked:
  "paint_session_arrange r s = paint_session_arrange (r AND 3) s \<and> r AND 3 \<in> {0, 1, 2, 3}"
proof -
  have "get_current_rotation (r AND 3) = get_current_rotation r"
    by (simp add: get_current_rotation_def and.assoc)
  then have "paint_session_arrange r s = paint_session_arrange (r AND 3) s"
    by (simp add: paint_session_arrange_def)
  moreover have "r AND 3 \<in> {0, 1, 2, 3}"
    using rotation_masked [of r] by (simp add: get_current_rotation_def)
  ultimately show ?thesis by simp
qed

text \<open>
  C6, as stated, fails: for A = (0,0,0,4,4,4) and B = (1,1,1,3,3,3) the test of
  rotation 0 answers false, and in \<open>nested_session\<close> the node behind the
  sentinel (the anchor of A) is A itself, not B.
\<close>

theorem nested_boxes_do_not_overlap:
  "check_bounding_box 0 (mk_box 0 0 0 4 4 4) (mk_box 1 1 1 3 3 3) = False
   \<and> (case paint_session_arrange 0 nested_session of
         Some (Inr s') \<Rightarrow> next_quadrant_ps (PaintHead s') \<noteq> Some (SlotRef 1)
       | _ \<Rightarrow> False)"
proof -
  have "check_bounding_box 0 (mk_box 0 0 0 4 4 4) (mk_box 1 1 1 3 3 3) = False"
    by (simp add: check_bounding_box_def mk_box_def)
  moreover have "case paint_session_arrange 0 nested_session of
         Some (Inr s') \<Rightarrow> next_quadrant_ps (PaintHead s') \<noteq> Some (SlotRef 1)
       | _ \<Rightarrow> False"
    by code_simp
  ultimately show ?thesis by simp
qed

text \<open>
  C6, amended: for these boxes the test of rotation 0 answers false, because B
  lies strictly inside A, and \<open>paint_session_arrange\<close> leaves the three primitives
  in bucket order: A, B, then the unrelated primitive of bucket 6.
\<close>

theorem nested_boxes_keep_bucket_order:
  "\<not> check_bounding_box 0 (bounds (PaintStructs nested_session 0)) (bounds (PaintStructs nested_session 1))
   \<and> (case paint_session_arrange 0 nested_session of
         Some (Inr s') \<Rightarrow>
           chain (session_heap s') (Some HeadRef) [HeadRef, SlotRef 0, SlotRef 1, SlotRef 2]
       | _ \<Rightarrow> False)"
proof -
  have "\<not> check_bounding_box 0 (bounds (PaintStructs nested_session 0)) (bounds (PaintStructs nested_session 1))"
    by (simp add: check_bounding_box_def mk_box_def nested_session_def mk_ps_def)
  moreover have "case paint_session_arrange 0 nested_session of
         Some (Inr s') \<Rightarrow>
           chain (session_heap s') (Some HeadRef) [HeadRef, SlotRef 0, SlotRef 1, SlotRef 2]
       | _ \<Rightarrow> False"
    by code_simp
  ultimately show ?thesis by simp
qed

section \<open>The empty session and the frame\<close>

text \<open>
  C9. With the empty sentinel as back index, \<open>paint_session_arrange\<close> only resets
  the link of the sentinel: the link is null afterwards, the chain behind the
  sentinel holds no primitive, and no primitive is modified.
\<close>

theorem arrange_empty_noop:
  assumes "QuadrantBackIndex s = UINT32_MAX"
  shows "paint_session_arrange gCurrentRotation s
           = Some (Inr (s\<lparr>PaintHead := (PaintHead s)\<lparr>next_quadrant_ps := None\<rparr>\<rparr>))
       \<and> chain (session_heap (s\<lparr>PaintHead := (PaintHead s)\<lparr>next_quadrant_ps := None\<rparr>\<rparr>))
            (Some HeadRef) [HeadRef]"
proof -
  have "store_heap (set_next_quadrant_ps (session_heap s) HeadRef None) s
          = s\<lparr>PaintHead := (PaintHead s)\<lparr>next_quadrant_ps := None\<rparr>\<rparr>"
    by (simp add: store_heap_def set_next_quadrant_ps_def session_heap_def)
  with arrange_empty [OF assms, of gCurrentRotation] show ?thesis
    by (simp add: session_heap_def)
qed

theorem arrange_empty_noop_witness:
  "QuadrantBackIndex empty_session = UINT32_MAX
   \<and> paint_session_arrange 2 empty_session
       = Some (Inr (empty_session\<lparr>PaintHead := (PaintHead empty_session)\<lparr>next_quadrant_ps := None\<rparr>\<rparr>))
   \<and> chain (session_heap (empty_session\<lparr>PaintHead := (PaintHead empty_session)\<lparr>next_quadrant_ps := None\<rparr>\<rparr>))
        (Some HeadRef) [HeadRef]"
proof -
  have e: "QuadrantBackIndex empty_session = UINT32_MAX"
    by (simp add: empty_session_def)
  from arrange_empty_noop [OF e, of 2] show ?thesis using e by simp
qed

text \<open>
  C10. On a well-formed session \<open>paint_session_arrange\<close> returns, and in the
  session it returns every paint struct, the sentinel included, has all its fields
  but \<open>next_quadrant_ps\<close> and \<open>quadrant_flags\<close> as before; a slot that is in no
  bucket is unchanged altogether, and so are the bucket heads and the two
  indices.
\<close>

theorem arrange_frame:
  assumes "session_wf s bs"
  shows "\<exists>s'. paint_session_arrange gCurrentRotation s = Some (Inr s')
     \<and> (\<forall>i. untouched_fields (PaintStructs s i) (PaintStructs s' i))
     \<and> untouched_fields (PaintHead s) (PaintHead s')
     \<and> (\<forall>i. SlotRef i \<notin> set (concat (map bs [0 ..< MAX_PAINT_QUADRANTS]))
            \<longrightarrow> PaintStructs s' i = PaintStructs s i)
     \<and> Quadrants s' = Quadrants s
     \<and> QuadrantBackIndex s' = QuadrantBackIndex s
     \<and> QuadrantFrontIndex s' = QuadrantFrontIndex s"
proof -
  have "\<exists>h'. paint_session_arrange gCurrentRotation s = Some (Inr (store_heap h' s))
     \<and> same_payload (session_heap s) h'
     \<and> (\<forall>x. x \<notin> set (HeadRef # concat (map bs [0 ..< MAX_PAINT_QUADRANTS]))
            \<longrightarrow> h' x = session_heap s x)"
  proof (cases "QuadrantBackIndex s = UINT32_MAX")
    case True
    define h0 where "h0 = set_next_quadrant_ps (session_heap s) HeadRef None"
    have "same_payload (session_heap s) h0"
      by (simp add: h0_def same_payload_next)
    moreover have "\<forall>x. x \<noteq> HeadRef \<longrightarrow> h0 x = session_heap s x"
      by (simp add: h0_def set_next_quadrant_ps_def)
    ultimately show ?thesis
      using arrange_empty [OF True, of gCurrentRotation] unfolding h0_def [symmetric]
      by (intro exI [of _ h0]) simp
  next
    case False
    with assms have wf: "buckets_wf s bs" and le: "QuadrantBackIndex s \<le> QuadrantFrontIndex s"
      and small: "unat (QuadrantFrontIndex s) < MAX_PAINT_QUADRANTS"
      and out: "\<forall>i < MAX_PAINT_QUADRANTS.
               i < unat (QuadrantBackIndex s) \<or> unat (QuadrantFrontIndex s) < i \<longrightarrow> bs i = []"
      by (simp_all add: session_wf_def bounds_wf_def)
    from le have "unat (QuadrantBackIndex s) \<le> Suc (unat (QuadrantFrontIndex s))"
      by (simp add: word_le_nat_alt)
    moreover from small have "Suc (unat (QuadrantFrontIndex s)) \<le> MAX_PAINT_QUADRANTS" by simp
    ultimately have eq: "concat (map bs [0 ..< MAX_PAINT_QUADRANTS])
        = concat (map bs [unat (QuadrantBackIndex s) ..< Suc (unat (QuadrantFrontIndex s))])"
      using out by (rule concat_occupied_range)
    from arrange_occupied [OF wf False le small, of gCurrentRotation] show ?thesis
      unfolding eq by blast
  qed
  then obtain h' where
    run: "paint_session_arrange gCurrentRotation s = Some (Inr (store_heap h' s))"
    and pay: "same_payload (session_heap s) h'"
    and out: "\<forall>x. x \<notin> set (HeadRef # concat (map bs [0 ..< MAX_PAINT_QUADRANTS]))
            \<longrightarrow> h' x = session_heap s x"
    by blast
  from pay have fields: "untouched_fields (session_heap s x) (h' x)" for x
    by (simp add: same_payload_def payload_untouched)
  have "\<forall>i. untouched_fields (PaintStructs s i) (PaintStructs (store_heap h' s) i)"
    using fields [of "SlotRef _"] by (simp add: store_heap_def session_heap_def)
  moreover have "untouched_fields (PaintHead s) (PaintHead (store_heap h' s))"
    using fields [of HeadRef] by (simp add: store_heap_def session_heap_def)
  moreover have "\<forall>i. SlotRef i \<notin> set (concat (map bs [0 ..< MAX_PAINT_QUADRANTS]))
            \<longrightarrow> PaintStructs (store_heap h' s) i = PaintStructs s i"
  proof (intro allI impI)
    fix i assume "SlotRef i \<notin> set (concat (map bs [0 ..< MAX_PAINT_QUADRANTS]))"
    then have "SlotRef i \<notin> set (HeadRef # concat (map bs [0 ..< MAX_PAINT_QUADRANTS]))" by simp
    with out have "h' (SlotRef i) = session_heap s (SlotRef i)" by blast
    then show "PaintStructs (store_heap h' s) i = PaintStructs s i"
      by (simp add: store_heap_def session_heap_def)
  qed
  ultimately show ?thesis
    using run by (intro exI [of _ "store_heap h' s"]) (simp add: store_heap_def)
qed

theorem arrange_frame_witness:
  "session_wf stacked_session stacked_buckets
   \<and> (\<exists>s'. paint_session_arrange 0 stacked_session = Some (Inr s')
     \<and> (\<forall>i. untouched_fields (PaintStructs stacked_session i) (PaintStructs s' i))
     \<and> untouched_fields (PaintHead stacked_session) (PaintHead s')
     \<and> (\<forall>i. SlotRef i \<notin> set (concat (map stacked_buckets [0 ..< MAX_PAINT_QUADRANTS]))
            \<longrightarrow> PaintStructs s' i = PaintStructs stacked_session i)
     \<and> Quadrants s' = Quadrants stacked_session
     \<and> QuadrantBackIndex s' = QuadrantBackIndex stacked_session
     \<and> QuadrantFrontIndex s' = QuadrantFrontIndex stacked_session)"
  using arrange_frame [OF stacked_wf, of 0] stacked_wf by blast

end
